theory Spec2Isabelle
  imports Complex_Main "HOL-Library.Word"
begin

text \<open>
  A shallow embedding of the pixel pipeline of the Realistic Shadow Generator
  (TypeScript). Typed arrays are lists of their element type, a JavaScript
  \<^verbatim>\<open>number\<close> that is a coordinate or a configuration value is a \<^typ>\<open>real\<close>
  (the arithmetic is the exact one, not the rounded double one), and a value read
  from a buffer is an option: \<open>None\<close> stands for \<^verbatim>\<open>undefined\<close> and for the
  \<^verbatim>\<open>NaN\<close> it turns into, which the code paths below never tell apart.
\<close>

section \<open>Buffers and numbers\<close>

type_synonym uint8 = "8 word"

type_synonym number = "real option"

text \<open>Reading a typed array outside its range is \<^verbatim>\<open>undefined\<close>, not an error.\<close>

definition readU8 :: "uint8 list \<Rightarrow> nat \<Rightarrow> uint8 option" where
  "readU8 buf i = (if i < length buf then Some (buf ! i) else None)"

definition readNum :: "uint8 list \<Rightarrow> int \<Rightarrow> number" where
  "readNum buf i = (if 0 \<le> i \<and> i < int (length buf) then Some (real (unat (buf ! nat i))) else None)"

text \<open>\<^verbatim>\<open>Math.round\<close>: the nearest integer, a half rounded up.\<close>

definition jsRound :: "real \<Rightarrow> int" where
  "jsRound v = \<lfloor>v + 1 / 2\<rfloor>"

text \<open>Arithmetic on values that may be \<^verbatim>\<open>NaN\<close>: any \<^verbatim>\<open>NaN\<close> operand gives \<^verbatim>\<open>NaN\<close>.\<close>

definition num2 :: "(real \<Rightarrow> real \<Rightarrow> real) \<Rightarrow> number \<Rightarrow> number \<Rightarrow> number" where
  "num2 f u v = (case u of None \<Rightarrow> None | Some p \<Rightarrow> (case v of None \<Rightarrow> None | Some q \<Rightarrow> Some (f p q)))"

definition nadd :: "number \<Rightarrow> number \<Rightarrow> number" where
  "nadd = num2 (+)"

definition nsub :: "number \<Rightarrow> number \<Rightarrow> number" where
  "nsub = num2 (-)"

definition nmul :: "number \<Rightarrow> number \<Rightarrow> number" where
  "nmul = num2 (*)"

text \<open>
  Division is only ever applied to the divisors 255, a positive \<^verbatim>\<open>outA\<close> and a
  positive sample count, so the quotient by zero (an infinity in JavaScript) is
  never computed; the model gives it the value \<open>None\<close>.
\<close>

definition ndiv :: "number \<Rightarrow> number \<Rightarrow> number" where
  "ndiv u v = (if v = Some 0 then None else num2 (/) u v)"

text \<open>A comparison with a \<^verbatim>\<open>NaN\<close> operand is false.\<close>

definition ngt :: "number \<Rightarrow> number \<Rightarrow> bool" where
  "ngt u v = (case u of None \<Rightarrow> False | Some p \<Rightarrow> (case v of None \<Rightarrow> False | Some q \<Rightarrow> p > q))"

definition nround :: "number \<Rightarrow> number" where
  "nround u = map_option (\<lambda>p. real_of_int (jsRound p)) u"

text \<open>
  A store into a \<^verbatim>\<open>Uint8ClampedArray\<close>: \<^verbatim>\<open>NaN\<close> becomes 0, the value is clamped to
  0..255 and rounded to the nearest integer, a half to the even one.
\<close>

definition roundHalfEven :: "real \<Rightarrow> int" where
  "roundHalfEven v =
     (let f = \<lfloor>v\<rfloor> in
      if v - real_of_int f < 1 / 2 then f
      else if v - real_of_int f > 1 / 2 then f + 1
      else if even f then f else f + 1)"

definition toUint8Clamped :: "number \<Rightarrow> uint8" where
  "toUint8Clamped u =
     (case u of
        None \<Rightarrow> 0
      | Some v \<Rightarrow> if v \<le> 0 then 0 else if v \<ge> 255 then 255 else word_of_int (roundHalfEven v))"

text \<open>A fold that stops at the first step that does not return.\<close>

fun foldOpt :: "('a \<Rightarrow> 's \<Rightarrow> 's option) \<Rightarrow> 'a list \<Rightarrow> 's \<Rightarrow> 's option" where
  "foldOpt f [] s = Some s"
| "foldOpt f (e # es) s = (case f e s of None \<Rightarrow> None | Some s' \<Rightarrow> foldOpt f es s')"

section \<open>Core types (types.ts)\<close>

record ImageData =
  width :: nat
  height :: nat
  data :: "uint8 list"

record LightVector =
  dx :: real
  dy :: real
  dz :: real

record ShadowConfig =
  lightAngle :: real
  lightElevation :: real
  maxShadowDistance :: real
  contactOpacity :: real
  falloffRate :: real
  minBlurRadius :: real
  maxBlurRadius :: real

record ImageSet =
  foreground :: "ImageData option"
  background :: "ImageData option"
  depthMap :: "ImageData option"

text \<open>A contact point is the pair \<open>(x, y)\<close>.\<close>

type_synonym Point = "int \<times> int"

record ContactLine =
  points :: "Point list"

text \<open>
  An entry of the distance map: a finite value or the \<^verbatim>\<open>Infinity\<close> the minimum
  search starts from. The rounding of a store into the \<^verbatim>\<open>Float32Array\<close> is not
  modelled (it keeps 0 and the sign).
\<close>

datatype dist = Finite real | Infinity

record DistanceMap =
  distData :: "dist list"
  distWidth :: nat
  distHeight :: nat

section \<open>LightVectorCalculator\<close>

text \<open>
  Modelled from the spec: \<^verbatim>\<open>degreesToRadians\<close> of \<^verbatim>\<open>utils/math\<close>, which is not among
  the sources; the spec says that angles are converted from degrees to radians.
\<close>

definition degreesToRadians :: "real \<Rightarrow> real" where
  "degreesToRadians degrees = degrees * (pi / 180)"

definition calculate :: "real \<Rightarrow> real \<Rightarrow> LightVector" where
  "calculate angleDegrees elevationDegrees =
     (let angleRad = degreesToRadians angleDegrees;
          elevationRad = degreesToRadians elevationDegrees
      in \<lparr>dx = cos angleRad * cos elevationRad,
          dy = sin angleRad * cos elevationRad,
          dz = sin elevationRad\<rparr>)"

definition getShadowLengthMultiplier :: "real \<Rightarrow> real" where
  "getShadowLengthMultiplier elevationDegrees =
     (let elevationRad = degreesToRadians elevationDegrees;
          sinElevation = sin elevationRad
      in 1 / max (1 / 10) sinElevation)"

section \<open>ContactLineDetector\<close>

text \<open>
  The inner loop of \<^verbatim>\<open>detect\<close>: \<open>scanColumn msk w x n\<close> scans the rows
  \<open>n - 1\<close> down to 0 of column \<open>x\<close> and returns the first row whose pixel is 1,
  or \<open>-1\<close> (the initial \<^verbatim>\<open>lowestY\<close>) when there is none.
\<close>

fun scanColumn :: "uint8 list \<Rightarrow> nat \<Rightarrow> nat \<Rightarrow> nat \<Rightarrow> int" where
  "scanColumn msk w x 0 = - 1"
| "scanColumn msk w x (Suc y) =
     (if readU8 msk (y * w + x) = Some 1 then int y else scanColumn msk w x y)"

definition detect :: "uint8 list \<Rightarrow> nat \<Rightarrow> nat \<Rightarrow> ContactLine" where
  "detect msk w h =
     \<lparr>points =
        fold (\<lambda>x pts.
                let lowestY = scanColumn msk w x h
                in if lowestY \<ge> 0 then pts @ [(int x, lowestY)] else pts)
             [0..<w] []\<rparr>"

section \<open>DistanceTransform\<close>

text \<open>
  Modelled from the spec: \<^verbatim>\<open>distance\<close> of \<^verbatim>\<open>utils/math\<close>, which is not among the
  sources; the spec calls it the Euclidean distance between two points.
\<close>

definition distance :: "real \<Rightarrow> real \<Rightarrow> real \<Rightarrow> real \<Rightarrow> real" where
  "distance x1 y1 x2 y2 = sqrt ((x2 - x1)\<^sup>2 + (y2 - y1)\<^sup>2)"

text \<open>\<^verbatim>\<open>Math.min\<close> of the running minimum and a finite distance.\<close>

fun minDist :: "dist \<Rightarrow> real \<Rightarrow> dist" where
  "minDist Infinity d = Finite d"
| "minDist (Finite m) d = Finite (min m d)"

definition minDistance :: "nat \<Rightarrow> nat \<Rightarrow> Point list \<Rightarrow> dist" where
  "minDistance x y pts =
     fold (\<lambda>point m.
             minDist m (distance (real x) (real y) (real_of_int (fst point)) (real_of_int (snd point))))
          pts Infinity"

definition compute :: "uint8 list \<Rightarrow> ContactLine \<Rightarrow> nat \<Rightarrow> nat \<Rightarrow> DistanceMap" where
  "compute msk contactLine w h =
     (let distances = replicate (w * h) (Finite 0) in
      if length (points contactLine) = 0
      then \<lparr>distData = distances, distWidth = w, distHeight = h\<rparr>
      else
        \<lparr>distData =
           fold (\<lambda>p ds.
                   case p of (y, x) \<Rightarrow>
                     let idx = y * w + x in
                     if readU8 msk idx = Some 0 then ds[idx := Finite 0]
                     else ds[idx := minDistance x y (points contactLine)])
                (List.product [0..<h] [0..<w]) distances,
         distWidth = w, distHeight = h\<rparr>)"

section \<open>ShadowProjector\<close>

definition markPixel :: "uint8 list \<Rightarrow> nat \<Rightarrow> nat \<Rightarrow> int \<Rightarrow> int \<Rightarrow> uint8 list" where
  "markPixel buffer w h x y =
     (if x \<ge> 0 \<and> x < int w \<and> y \<ge> 0 \<and> y < int h
      then buffer[nat (y * int w + x) := 1] else buffer)"

text \<open>
  The constants of one call of \<^verbatim>\<open>drawLine\<close>: width, height, \<^verbatim>\<open>dx\<close>, \<^verbatim>\<open>dy\<close>,
  \<^verbatim>\<open>sx\<close>, \<^verbatim>\<open>sy\<close>, \<^verbatim>\<open>endX\<close>, \<^verbatim>\<open>endY\<close>; and the variables of its loop: the
  buffer, \<^verbatim>\<open>err\<close>, \<^verbatim>\<open>x\<close>, \<^verbatim>\<open>y\<close>. The buffer is a type parameter: the list
  of its cells here, a store and an address in the section on the store.
\<close>

type_synonym lineParams = "nat \<times> nat \<times> real \<times> real \<times> int \<times> int \<times> int \<times> int"

type_synonym 'b lineState = "'b \<times> real \<times> int \<times> int"

text \<open>The two conditional steps at the end of the loop body.\<close>

definition lineStep :: "lineParams \<Rightarrow> 'b lineState \<Rightarrow> 'b lineState" where
  "lineStep c s =
     (case c of (w, h, adx, ady, sx, sy, endX, endY) \<Rightarrow>
      case s of (buffer, err, x, y) \<Rightarrow>
        let e2 = 2 * err;
            err1 = (if e2 > - ady then err - ady else err);
            x' = (if e2 > - ady then x + sx else x);
            err2 = (if e2 < adx then err1 + adx else err1);
            y' = (if e2 < adx then y + sy else y)
        in (buffer, err2, x', y'))"

text \<open>
  The \<^verbatim>\<open>while (true)\<close> loop of \<^verbatim>\<open>drawLine\<close>. It has no bound, so it is a partial
  function: \<open>None\<close> is the loop that never reaches its \<^verbatim>\<open>break\<close>.
\<close>

partial_function (option) drawLoop :: "lineParams \<times> uint8 list lineState \<Rightarrow> uint8 list option" where
  "drawLoop cs =
     (case cs of ((w, h, adx, ady, sx, sy, endX, endY), (buffer, err, x, y)) \<Rightarrow>
        let buffer' = markPixel buffer w h x y in
        if x = endX \<and> y = endY then Some buffer'
        else drawLoop ((w, h, adx, ady, sx, sy, endX, endY),
                       lineStep (w, h, adx, ady, sx, sy, endX, endY) (buffer', err, x, y)))"

definition drawLine ::
  "uint8 list \<Rightarrow> nat \<Rightarrow> nat \<Rightarrow> real \<Rightarrow> real \<Rightarrow> real \<Rightarrow> real \<Rightarrow> uint8 list option" where
  "drawLine buffer w h x0 y0 x1 y1 =
     (let adx = \<bar>x1 - x0\<bar>;
          ady = \<bar>y1 - y0\<bar>;
          sx = (if x0 < x1 then 1 else - 1);
          sy = (if y0 < y1 then 1 else - 1);
          err = adx - ady;
          x = jsRound x0;
          y = jsRound y0;
          endX = jsRound x1;
          endY = jsRound y1
      in drawLoop ((w, h, adx, ady, sx, sy, endX, endY), (buffer, err, x, y)))"

text \<open>
  The depth warp of one pixel. A depth read outside the depth map is
  \<^verbatim>\<open>undefined\<close> and the factor is \<^verbatim>\<open>NaN\<close>.
\<close>

definition warpFactor :: "ImageData option \<Rightarrow> nat \<Rightarrow> number" where
  "warpFactor depthMapOpt idx =
     (case depthMapOpt of
        None \<Rightarrow> Some 1
      | Some dm \<Rightarrow>
          (let depthIdx = idx * 4;
               depth = ndiv (readNum (data dm) (int depthIdx)) (Some 255)
           in nadd (Some 1) (nmul depth (Some (1 / 2)))))"

text \<open>
  The body of the two loops of \<^verbatim>\<open>project\<close> for the pixel \<open>(x, y)\<close>. With a
  \<^verbatim>\<open>NaN\<close> warp factor the end point is \<^verbatim>\<open>NaN\<close>, no comparison of \<^verbatim>\<open>drawLine\<close>
  with it is ever true and its loop never ends: the result is \<open>None\<close>.
\<close>

definition projectPixel ::
  "uint8 list \<Rightarrow> nat \<Rightarrow> nat \<Rightarrow> LightVector \<Rightarrow> real \<Rightarrow> ImageData option \<Rightarrow>
   nat \<times> nat \<Rightarrow> uint8 list \<Rightarrow> uint8 list option" where
  "projectPixel msk w h lightVector maxDistance depthMapOpt p shadowMask =
     (case p of (y, x) \<Rightarrow>
        let idx = y * w + x in
        if readU8 msk idx = Some 0 then Some shadowMask
        else
          (case warpFactor depthMapOpt idx of
             None \<Rightarrow> None
           | Some warp \<Rightarrow>
               let projX = real x - dx lightVector * maxDistance * warp;
                   projY = real y - dy lightVector * maxDistance * warp
               in drawLine shadowMask w h (real x) (real y) projX projY))"

definition project ::
  "uint8 list \<Rightarrow> nat \<Rightarrow> nat \<Rightarrow> LightVector \<Rightarrow> real \<Rightarrow> ImageData option \<Rightarrow> uint8 list option" where
  "project msk w h lightVector maxDistance depthMapOpt =
     foldOpt (projectPixel msk w h lightVector maxDistance depthMapOpt)
       (List.product [0..<h] [0..<w]) (replicate (w * h) 0)"

definition removeOcclusions :: "uint8 list \<Rightarrow> uint8 list \<Rightarrow> nat \<Rightarrow> nat \<Rightarrow> uint8 list" where
  "removeOcclusions shadowMask silhouetteMask w h =
     fold (\<lambda>i result.
             if readU8 shadowMask i = Some 1 \<and> readU8 silhouetteMask i = Some 0
             then result[i := 1] else result)
          [0..<length shadowMask] (replicate (w * h) 0)"

text \<open>
  The loop is past its end point for good: it steps down the rows (\<^verbatim>\<open>sy = 1\<close>)
  and is already below the end row, or it steps up and is already above it.
\<close>

definition pastEnd :: "lineParams \<times> uint8 list lineState \<Rightarrow> bool" where
  "pastEnd cs =
     (case cs of ((w, h, adx, ady, sx, sy, endX, endY), (buffer, err, x, y)) \<Rightarrow>
        (sy = 1 \<and> endY < y) \<or> (sy = - 1 \<and> y < endY))"

subsection \<open>The integer line algorithm the spec names\<close>

text \<open>
  Bresenham's algorithm on integer end points, as the page the source cites gives
  it: the error term starts from the integer differences of the end points. It
  returns the cells it plots, in order.
\<close>

type_synonym cellState = "(int \<times> int) list \<times> int \<times> int \<times> int"

type_synonym cellParams = "int \<times> int \<times> int \<times> int \<times> int \<times> int"

definition cellStep :: "cellParams \<Rightarrow> cellState \<Rightarrow> cellState" where
  "cellStep c s =
     (case c of (idx, idy, sx, sy, x1, y1) \<Rightarrow>
      case s of (cells, err, x, y) \<Rightarrow>
        let e2 = 2 * err;
            err1 = (if e2 > - idy then err - idy else err);
            x' = (if e2 > - idy then x + sx else x);
            err2 = (if e2 < idx then err1 + idx else err1);
            y' = (if e2 < idx then y + sy else y)
        in (cells, err2, x', y'))"

partial_function (option) bresenhamLoop :: "cellParams \<times> cellState \<Rightarrow> (int \<times> int) list option" where
  "bresenhamLoop cs =
     (case cs of ((idx, idy, sx, sy, x1, y1), (cells, err, x, y)) \<Rightarrow>
        let cells' = cells @ [(x, y)] in
        if x = x1 \<and> y = y1 then Some cells'
        else bresenhamLoop ((idx, idy, sx, sy, x1, y1),
                            cellStep (idx, idy, sx, sy, x1, y1) (cells', err, x, y)))"

definition bresenham :: "int \<Rightarrow> int \<Rightarrow> int \<Rightarrow> int \<Rightarrow> (int \<times> int) list option" where
  "bresenham x0 y0 x1 y1 =
     (let idx = \<bar>x1 - x0\<bar>;
          idy = \<bar>y1 - y0\<bar>;
          sx = (if x0 < x1 then 1 else - 1);
          sy = (if y0 < y1 then 1 else - 1)
      in bresenhamLoop ((idx, idy, sx, sy, x1, y1), ([], idx - idy, x0, y0)))"

text \<open>
  What the spec says a pixel's line marks: the in-bounds cells of the integer
  algorithm between the rounded start and the rounded end point.
\<close>

definition markCells :: "nat \<Rightarrow> nat \<Rightarrow> (int \<times> int) list \<Rightarrow> uint8 list \<Rightarrow> uint8 list" where
  "markCells w h cells buffer = fold (\<lambda>c b. markPixel b w h (fst c) (snd c)) cells buffer"

definition bresenhamRounded ::
  "uint8 list \<Rightarrow> nat \<Rightarrow> nat \<Rightarrow> real \<Rightarrow> real \<Rightarrow> real \<Rightarrow> real \<Rightarrow> uint8 list option" where
  "bresenhamRounded buffer w h x0 y0 x1 y1 =
     map_option (\<lambda>cells. markCells w h cells buffer)
       (bresenham (jsRound x0) (jsRound y0) (jsRound x1) (jsRound y1))"

section \<open>Alpha blending (utils/imageData.ts)\<close>

type_synonym rgba = "number \<times> number \<times> number \<times> number"

definition alphaBlend ::
  "number \<Rightarrow> number \<Rightarrow> number \<Rightarrow> number \<Rightarrow> number \<Rightarrow> number \<Rightarrow> number \<Rightarrow> number \<Rightarrow> rgba" where
  "alphaBlend backdropR backdropG backdropB backdropA sourceR sourceG sourceB sourceA =
     (let srcA = ndiv sourceA (Some 255);
          dstA = ndiv backdropA (Some 255)
      in
      if srcA = Some 0 then (backdropR, backdropG, backdropB, backdropA)
      else
        let outA = nadd srcA (nmul dstA (nsub (Some 1) srcA));
            over = (\<lambda>source backdrop.
                      ndiv (nadd (nmul source srcA) (nmul (nmul backdrop dstA) (nsub (Some 1) srcA))) outA);
            outR = (if ngt outA (Some 0) then over sourceR backdropR else backdropR);
            outG = (if ngt outA (Some 0) then over sourceG backdropG else backdropG);
            outB = (if ngt outA (Some 0) then over sourceB backdropB else backdropB)
        in (nround outR, nround outG, nround outB, nround (nmul outA (Some 255))))"

section \<open>ShadowCompositor\<close>

text \<open>The four stores of one pixel into a \<^verbatim>\<open>Uint8ClampedArray\<close>.\<close>

definition storePixel :: "uint8 list \<Rightarrow> nat \<Rightarrow> rgba \<Rightarrow> uint8 list" where
  "storePixel pixels pixelIdx c =
     (case c of (r, g, b, a) \<Rightarrow>
        pixels[pixelIdx := toUint8Clamped r,
               pixelIdx + 1 := toUint8Clamped g,
               pixelIdx + 2 := toUint8Clamped b,
               pixelIdx + 3 := toUint8Clamped a])"

text \<open>The body of the loop of \<^verbatim>\<open>composite\<close> for pixel \<open>i\<close>.\<close>

definition compositePixel :: "ImageData \<Rightarrow> ImageData \<Rightarrow> ImageData \<Rightarrow> nat \<Rightarrow> uint8 list \<Rightarrow> uint8 list" where
  "compositePixel bg shadow fg i result =
     (let pixelIdx = int (i * 4);
          r = readNum (data bg) pixelIdx;
          g = readNum (data bg) (pixelIdx + 1);
          b = readNum (data bg) (pixelIdx + 2);
          a = readNum (data bg) (pixelIdx + 3);
          shadowBlend = alphaBlend r g b a
             (readNum (data shadow) pixelIdx) (readNum (data shadow) (pixelIdx + 1))
             (readNum (data shadow) (pixelIdx + 2)) (readNum (data shadow) (pixelIdx + 3));
          foregroundBlend =
            (case shadowBlend of (r', g', b', a') \<Rightarrow>
               alphaBlend r' g' b' a'
                 (readNum (data fg) pixelIdx) (readNum (data fg) (pixelIdx + 1))
                 (readNum (data fg) (pixelIdx + 2)) (readNum (data fg) (pixelIdx + 3)))
      in storePixel result (i * 4) foregroundBlend)"

definition composite :: "ImageData \<Rightarrow> ImageData \<Rightarrow> ImageData \<Rightarrow> ImageData" where
  "composite bg shadow fg =
     (let w = width bg; h = height bg in
      \<lparr>width = w, height = h,
       data = fold (compositePixel bg shadow fg) [0..<w * h] (replicate (4 * w * h) 0)\<rparr>)"

subsection \<open>The two-layer blend the spec compares with\<close>

text \<open>
  The Porter-Duff "over" blend of the foreground over the background alone,
  pixel by pixel, with no shadow stage.
\<close>

definition overPixel :: "ImageData \<Rightarrow> ImageData \<Rightarrow> nat \<Rightarrow> uint8 list \<Rightarrow> uint8 list" where
  "overPixel bg fg i result =
     (let pixelIdx = int (i * 4) in
      storePixel result (i * 4)
        (alphaBlend
           (readNum (data bg) pixelIdx) (readNum (data bg) (pixelIdx + 1))
           (readNum (data bg) (pixelIdx + 2)) (readNum (data bg) (pixelIdx + 3))
           (readNum (data fg) pixelIdx) (readNum (data fg) (pixelIdx + 1))
           (readNum (data fg) (pixelIdx + 2)) (readNum (data fg) (pixelIdx + 3))))"

definition overBlend :: "ImageData \<Rightarrow> ImageData \<Rightarrow> ImageData" where
  "overBlend bg fg =
     (let w = width bg; h = height bg in
      \<lparr>width = w, height = h,
       data = fold (overPixel bg fg) [0..<w * h] (replicate (4 * w * h) 0)\<rparr>)"

section \<open>BlurEngine\<close>

text \<open>
  Modelled from the spec: \<^verbatim>\<open>clamp\<close> of \<^verbatim>\<open>utils/math\<close>, which is not among the
  sources; the value limited to the interval from \<open>lo\<close> to \<open>hi\<close>.
\<close>

definition clamp :: "number \<Rightarrow> real \<Rightarrow> real \<Rightarrow> number" where
  "clamp v lo hi = map_option (\<lambda>p. min (max p lo) hi) v"

text \<open>The running sums \<^verbatim>\<open>r, g, b, a\<close> and \<^verbatim>\<open>count\<close> of \<^verbatim>\<open>gaussianBlurAtPixel\<close>.\<close>

type_synonym blurAcc = "number \<times> number \<times> number \<times> number \<times> nat"

text \<open>The body of the inner loop for the offset \<open>(ox, oy)\<close> (\<^verbatim>\<open>dx\<close>, \<^verbatim>\<open>dy\<close> in the source).\<close>

definition blurSample :: "ImageData \<Rightarrow> int \<Rightarrow> int \<Rightarrow> real \<Rightarrow> int \<Rightarrow> int \<Rightarrow> blurAcc \<Rightarrow> blurAcc" where
  "blurSample imageData cx cy radius oy ox acc =
     (case acc of (r, g, b, a, count) \<Rightarrow>
        let w = int (width imageData); h = int (height imageData); pixels = data imageData;
            x = cx + ox; y = cy + oy
        in
        if x < 0 \<or> x \<ge> w \<or> y < 0 \<or> y \<ge> h then acc
        else
          let distSq = ox * ox + oy * oy in
          if real_of_int distSq > radius * radius then acc
          else
            let idx = (y * w + x) * 4 in
            (nadd r (readNum pixels idx), nadd g (readNum pixels (idx + 1)),
             nadd b (readNum pixels (idx + 2)), nadd a (readNum pixels (idx + 3)), count + 1))"

text \<open>The sums and the count after the two loops over the square neighbourhood.\<close>

definition blurAccumulate :: "ImageData \<Rightarrow> int \<Rightarrow> int \<Rightarrow> real \<Rightarrow> blurAcc" where
  "blurAccumulate imageData cx cy radius =
     (let intRadius = \<lceil>radius\<rceil> in
      fold (\<lambda>oy acc. fold (\<lambda>ox acc'. blurSample imageData cx cy radius oy ox acc')
                        [- intRadius..intRadius] acc)
           [- intRadius..intRadius] (Some 0, Some 0, Some 0, Some 0, 0))"

definition gaussianBlurAtPixel :: "ImageData \<Rightarrow> int \<Rightarrow> int \<Rightarrow> real \<Rightarrow> rgba" where
  "gaussianBlurAtPixel imageData cx cy radius =
     (if radius < 1 / 2 then
        let idx = (cy * int (width imageData) + cx) * 4 in
        (readNum (data imageData) idx, readNum (data imageData) (idx + 1),
         readNum (data imageData) (idx + 2), readNum (data imageData) (idx + 3))
      else
        (case blurAccumulate imageData cx cy radius of (r, g, b, a, count) \<Rightarrow>
           let n = Some (real count);
               r' = (if count > 0 then ndiv r n else r);
               g' = (if count > 0 then ndiv g n else g);
               b' = (if count > 0 then ndiv b n else b);
               a' = (if count > 0 then ndiv a n else a)
           in (clamp (nround r') 0 255, clamp (nround g') 0 255,
               clamp (nround b') 0 255, clamp (nround a') 0 255)))"

section \<open>ShadowGenerator.validateImages\<close>

datatype error = Error string

datatype warning =
    ImageDimensionMismatch nat nat nat nat
  | DepthMapDimensionMismatch nat nat nat nat

text \<open>
  \<^verbatim>\<open>validateImages\<close> returns nothing: its result is the error it throws, or the
  warnings it has written to the console.
\<close>

definition validateImages :: "ImageSet \<Rightarrow> error + warning list" where
  "validateImages images =
     (case foreground images of
        None \<Rightarrow> Inl (Error ''Foreground image is required'')
      | Some fg \<Rightarrow>
          (case background images of
             None \<Rightarrow> Inl (Error ''Background image is required'')
           | Some bg \<Rightarrow>
               let fgWidth = width fg; fgHeight = height fg;
                   bgWidth = width bg; bgHeight = height bg;
                   warnings1 =
                     (if fgWidth \<noteq> bgWidth \<or> fgHeight \<noteq> bgHeight
                      then [ImageDimensionMismatch fgWidth fgHeight bgWidth bgHeight] else []);
                   warnings2 =
                     (case depthMap images of
                        None \<Rightarrow> []
                      | Some dm \<Rightarrow>
                          let dmWidth = width dm; dmHeight = height dm in
                          if dmWidth \<noteq> fgWidth \<or> dmHeight \<noteq> fgHeight
                          then [DepthMapDimensionMismatch dmWidth dmHeight fgWidth fgHeight] else [])
               in Inr (warnings1 @ warnings2)))"

section \<open>The pipeline on a store\<close>

text \<open>
  The functions above pass buffers by value. To say which buffers a call
  writes, the pipeline is modelled once more on a store: every typed array has an
  address, \<^verbatim>\<open>new\<close> appends a zero-filled buffer to the store, and each element
  read and write of the source names the address of its array. \<open>u8\<close> holds the
  \<^verbatim>\<open>Uint8Array\<close> and \<^verbatim>\<open>Uint8ClampedArray\<close> buffers, \<open>f32\<close> the \<^verbatim>\<open>Float32Array\<close> ones.
  Console output and the progress clock of the blur are left out.
\<close>

record Heap =
  u8 :: "uint8 list list"
  f32 :: "dist list list"

text \<open>An \<^verbatim>\<open>ImageData\<close> object: its read-only dimensions and the address of its data.\<close>

record ImageDataRef =
  refWidth :: nat
  refHeight :: nat
  refData :: nat

record DistanceMapRef =
  distRef :: nat
  distRefWidth :: nat
  distRefHeight :: nat

record ImageSetRef =
  foregroundRef :: ImageDataRef
  backgroundRef :: ImageDataRef
  depthMapRef :: "ImageDataRef option"

record ShadowResultRef =
  shadowOnlyRef :: ImageDataRef
  maskDebugRef :: ImageDataRef
  compositeRef :: ImageDataRef

definition bufU8 :: "Heap \<Rightarrow> nat \<Rightarrow> uint8 list" where
  "bufU8 hp a = (if a < length (u8 hp) then u8 hp ! a else [])"

definition bufF32 :: "Heap \<Rightarrow> nat \<Rightarrow> dist list" where
  "bufF32 hp a = (if a < length (f32 hp) then f32 hp ! a else [])"

definition loadU8 :: "Heap \<Rightarrow> nat \<Rightarrow> nat \<Rightarrow> uint8 option" where
  "loadU8 hp a i = readU8 (bufU8 hp a) i"

definition loadNum :: "Heap \<Rightarrow> nat \<Rightarrow> int \<Rightarrow> number" where
  "loadNum hp a i = readNum (bufU8 hp a) i"

definition loadF32 :: "Heap \<Rightarrow> nat \<Rightarrow> nat \<Rightarrow> dist option" where
  "loadF32 hp a i = (if i < length (bufF32 hp a) then Some (bufF32 hp a ! i) else None)"

definition storeU8 :: "Heap \<Rightarrow> nat \<Rightarrow> nat \<Rightarrow> uint8 \<Rightarrow> Heap" where
  "storeU8 hp a i v = hp\<lparr>u8 := (u8 hp)[a := (bufU8 hp a)[i := v]]\<rparr>"

definition storeF32 :: "Heap \<Rightarrow> nat \<Rightarrow> nat \<Rightarrow> dist \<Rightarrow> Heap" where
  "storeF32 hp a i v = hp\<lparr>f32 := (f32 hp)[a := (bufF32 hp a)[i := v]]\<rparr>"

definition allocU8 :: "Heap \<Rightarrow> nat \<Rightarrow> nat \<times> Heap" where
  "allocU8 hp n = (length (u8 hp), hp\<lparr>u8 := u8 hp @ [replicate n 0]\<rparr>)"

definition allocF32 :: "Heap \<Rightarrow> nat \<Rightarrow> nat \<times> Heap" where
  "allocF32 hp n = (length (f32 hp), hp\<lparr>f32 := f32 hp @ [replicate n (Finite 0)]\<rparr>)"

text \<open>\<^verbatim>\<open>new ImageData(width, height)\<close>, for the positive dimensions of a given image.\<close>

definition newImageData :: "Heap \<Rightarrow> nat \<Rightarrow> nat \<Rightarrow> ImageDataRef \<times> Heap" where
  "newImageData hp w h =
     (case allocU8 hp (4 * w * h) of (a, hp') \<Rightarrow>
        (\<lparr>refWidth = w, refHeight = h, refData = a\<rparr>, hp'))"

text \<open>The image a reference stands for in a store, for the functions that only read it.\<close>

definition imageOf :: "Heap \<Rightarrow> ImageDataRef \<Rightarrow> ImageData" where
  "imageOf hp r = \<lparr>width = refWidth r, height = refHeight r, data = bufU8 hp (refData r)\<rparr>"

definition storePixelH :: "Heap \<Rightarrow> nat \<Rightarrow> nat \<Rightarrow> rgba \<Rightarrow> Heap" where
  "storePixelH hp pixels pixelIdx c =
     (case c of (r, g, b, a) \<Rightarrow>
        storeU8 (storeU8 (storeU8 (storeU8 hp pixels pixelIdx (toUint8Clamped r))
                   pixels (pixelIdx + 1) (toUint8Clamped g))
                   pixels (pixelIdx + 2) (toUint8Clamped b))
                   pixels (pixelIdx + 3) (toUint8Clamped a))"

subsection \<open>utils/math\<close>

text \<open>
  \<^verbatim>\<open>exponentialFalloff\<close>, \<^verbatim>\<open>normalize\<close> and \<^verbatim>\<open>lerp\<close> of \<^verbatim>\<open>utils/math\<close> are not
  among the sources. The pipeline takes them as parameters; their first
  argument is a distance read from the distance map, \<^verbatim>\<open>undefined\<close> outside it.
\<close>

record MathUtils =
  exponentialFalloff :: "dist option \<Rightarrow> real \<Rightarrow> real \<Rightarrow> real \<Rightarrow> number"
  normalize :: "dist option \<Rightarrow> real \<Rightarrow> real \<Rightarrow> number"
  lerp :: "real \<Rightarrow> real \<Rightarrow> number \<Rightarrow> number"

subsection \<open>The stages\<close>

definition extractH :: "Heap \<Rightarrow> ImageDataRef \<Rightarrow> real \<Rightarrow> nat \<times> Heap" where
  "extractH hp imageData alphaThreshold =
     (let w = refWidth imageData; h = refHeight imageData; pixels = refData imageData in
      case allocU8 hp (w * h) of (msk, hp1) \<Rightarrow>
        (msk,
         fold (\<lambda>p hh.
                 case p of (y, x) \<Rightarrow>
                   let pixelIdx = (y * w + x) * 4;
                       alpha = loadNum hh pixels (int (pixelIdx + 3));
                       maskIdx = y * w + x
                   in storeU8 hh msk maskIdx (if ngt alpha (Some alphaThreshold) then 1 else 0))
              (List.product [0..<h] [0..<w]) hp1))"

definition computeH :: "Heap \<Rightarrow> nat \<Rightarrow> ContactLine \<Rightarrow> nat \<Rightarrow> nat \<Rightarrow> DistanceMapRef \<times> Heap" where
  "computeH hp msk contactLine w h =
     (case allocF32 hp (w * h) of (distances, hp1) \<Rightarrow>
        if length (points contactLine) = 0
        then (\<lparr>distRef = distances, distRefWidth = w, distRefHeight = h\<rparr>, hp1)
        else
          (\<lparr>distRef = distances, distRefWidth = w, distRefHeight = h\<rparr>,
           fold (\<lambda>p hh.
                   case p of (y, x) \<Rightarrow>
                     let idx = y * w + x in
                     if loadU8 hh msk idx = Some 0 then storeF32 hh distances idx (Finite 0)
                     else storeF32 hh distances idx (minDistance x y (points contactLine)))
                (List.product [0..<h] [0..<w]) hp1))"

definition markPixelH :: "Heap \<Rightarrow> nat \<Rightarrow> nat \<Rightarrow> nat \<Rightarrow> int \<Rightarrow> int \<Rightarrow> Heap" where
  "markPixelH hp buffer w h x y =
     (if x \<ge> 0 \<and> x < int w \<and> y \<ge> 0 \<and> y < int h
      then storeU8 hp buffer (nat (y * int w + x)) 1 else hp)"

partial_function (option) drawLoopH :: "lineParams \<times> (Heap \<times> nat) lineState \<Rightarrow> Heap option" where
  "drawLoopH cs =
     (case cs of ((w, h, adx, ady, sx, sy, endX, endY), ((hp, buffer), err, x, y)) \<Rightarrow>
        let hp' = markPixelH hp buffer w h x y in
        if x = endX \<and> y = endY then Some hp'
        else drawLoopH ((w, h, adx, ady, sx, sy, endX, endY),
                        lineStep (w, h, adx, ady, sx, sy, endX, endY) ((hp', buffer), err, x, y)))"

definition drawLineH ::
  "Heap \<Rightarrow> nat \<Rightarrow> nat \<Rightarrow> nat \<Rightarrow> real \<Rightarrow> real \<Rightarrow> real \<Rightarrow> real \<Rightarrow> Heap option" where
  "drawLineH hp buffer w h x0 y0 x1 y1 =
     (let adx = \<bar>x1 - x0\<bar>;
          ady = \<bar>y1 - y0\<bar>;
          sx = (if x0 < x1 then 1 else - 1);
          sy = (if y0 < y1 then 1 else - 1);
          err = adx - ady;
          x = jsRound x0;
          y = jsRound y0;
          endX = jsRound x1;
          endY = jsRound y1
      in drawLoopH ((w, h, adx, ady, sx, sy, endX, endY), ((hp, buffer), err, x, y)))"

definition warpFactorH :: "Heap \<Rightarrow> ImageDataRef option \<Rightarrow> nat \<Rightarrow> number" where
  "warpFactorH hp depthMapOpt idx =
     (case depthMapOpt of
        None \<Rightarrow> Some 1
      | Some dm \<Rightarrow>
          (let depthIdx = idx * 4;
               depth = ndiv (loadNum hp (refData dm) (int depthIdx)) (Some 255)
           in nadd (Some 1) (nmul depth (Some (1 / 2)))))"

definition projectPixelH ::
  "nat \<Rightarrow> nat \<Rightarrow> nat \<Rightarrow> LightVector \<Rightarrow> real \<Rightarrow> ImageDataRef option \<Rightarrow> nat \<Rightarrow>
   nat \<times> nat \<Rightarrow> Heap \<Rightarrow> Heap option" where
  "projectPixelH msk w h lightVector maxDistance depthMapOpt shadowMask p hp =
     (case p of (y, x) \<Rightarrow>
        let idx = y * w + x in
        if loadU8 hp msk idx = Some 0 then Some hp
        else
          (case warpFactorH hp depthMapOpt idx of
             None \<Rightarrow> None
           | Some warp \<Rightarrow>
               let projX = real x - dx lightVector * maxDistance * warp;
                   projY = real y - dy lightVector * maxDistance * warp
               in drawLineH hp shadowMask w h (real x) (real y) projX projY))"

definition projectH ::
  "Heap \<Rightarrow> nat \<Rightarrow> nat \<Rightarrow> nat \<Rightarrow> LightVector \<Rightarrow> real \<Rightarrow> ImageDataRef option \<Rightarrow> (nat \<times> Heap) option" where
  "projectH hp msk w h lightVector maxDistance depthMapOpt =
     (case allocU8 hp (w * h) of (shadowMask, hp1) \<Rightarrow>
        map_option (Pair shadowMask)
          (foldOpt (projectPixelH msk w h lightVector maxDistance depthMapOpt shadowMask)
             (List.product [0..<h] [0..<w]) hp1))"

definition removeOcclusionsH :: "Heap \<Rightarrow> nat \<Rightarrow> nat \<Rightarrow> nat \<Rightarrow> nat \<Rightarrow> nat \<times> Heap" where
  "removeOcclusionsH hp shadowMask silhouetteMask w h =
     (case allocU8 hp (w * h) of (result, hp1) \<Rightarrow>
        (result,
         fold (\<lambda>i hh.
                 if loadU8 hh shadowMask i = Some 1 \<and> loadU8 hh silhouetteMask i = Some 0
                 then storeU8 hh result i 1 else hh)
              [0..<length (bufU8 hp shadowMask)] hp1))"

definition createShadowLayerH ::
  "MathUtils \<Rightarrow> Heap \<Rightarrow> nat \<Rightarrow> DistanceMapRef \<Rightarrow> ShadowConfig \<Rightarrow> nat \<Rightarrow> nat \<Rightarrow> ImageDataRef \<times> Heap" where
  "createShadowLayerH m hp shadowMask distanceMap config w h =
     (case newImageData hp w h of (shadowData, hp1) \<Rightarrow>
        let pixels = refData shadowData in
        (shadowData,
         fold (\<lambda>p hh.
                 case p of (y, x) \<Rightarrow>
                   let idx = y * w + x; pixelIdx = idx * 4 in
                   if loadU8 hh shadowMask idx = Some 0
                   then storePixelH hh pixels pixelIdx (Some 0, Some 0, Some 0, Some 0)
                   else
                     let distance = loadF32 hh (distRef distanceMap) idx;
                         opacity = exponentialFalloff m distance (contactOpacity config)
                                     (falloffRate config) (maxShadowDistance config)
                     in storePixelH hh pixels pixelIdx (Some 0, Some 0, Some 0, nmul opacity (Some 255)))
              (List.product [0..<h] [0..<w]) hp1))"

text \<open>
  With a \<^verbatim>\<open>NaN\<close> radius no comparison of \<^verbatim>\<open>gaussianBlurAtPixel\<close> is true: the early
  return is skipped, the loops do not run, the count stays 0 and the result is
  the clamped zero sums.
\<close>

definition applyDistanceWeightedBlurH ::
  "MathUtils \<Rightarrow> Heap \<Rightarrow> ImageDataRef \<Rightarrow> DistanceMapRef \<Rightarrow> real \<Rightarrow> real \<Rightarrow> real \<Rightarrow> ImageDataRef \<times> Heap" where
  "applyDistanceWeightedBlurH m hp shadowData distanceMap minBlur maxBlur maxDistance =
     (let w = refWidth shadowData; h = refHeight shadowData in
      case newImageData hp w h of (result, hp1) \<Rightarrow>
        (result,
         fold (\<lambda>p hh.
                 case p of (y, x) \<Rightarrow>
                   let idx = y * w + x;
                       distance = loadF32 hh (distRef distanceMap) idx;
                       normalizedDist = normalize m distance 0 maxDistance;
                       blurRadius = lerp m minBlur maxBlur normalizedDist;
                       blurred =
                         (case blurRadius of
                            None \<Rightarrow> (Some 0, Some 0, Some 0, Some 0)
                          | Some radius \<Rightarrow>
                              gaussianBlurAtPixel (imageOf hh shadowData) (int x) (int y) radius);
                       pixelIdx = idx * 4
                   in storePixelH hh (refData result) pixelIdx blurred)
              (List.product [0..<h] [0..<w]) hp1))"

definition maskToImageDataH :: "Heap \<Rightarrow> nat \<Rightarrow> nat \<Rightarrow> nat \<Rightarrow> ImageDataRef \<times> Heap" where
  "maskToImageDataH hp msk w h =
     (case newImageData hp w h of (imageData, hp1) \<Rightarrow>
        let pixels = refData imageData in
        (imageData,
         fold (\<lambda>i hh.
                 let pixelIdx = i * 4;
                     v = nmul (loadNum hh msk (int i)) (Some 255)
                 in storePixelH hh pixels pixelIdx (v, v, v, Some 255))
              [0..<length (bufU8 hp msk)] hp1))"

definition compositePixelH ::
  "ImageDataRef \<Rightarrow> ImageDataRef \<Rightarrow> ImageDataRef \<Rightarrow> ImageDataRef \<Rightarrow> nat \<Rightarrow> Heap \<Rightarrow> Heap" where
  "compositePixelH bg shadow fg result i hp =
     (let pixelIdx = int (i * 4);
          r = loadNum hp (refData bg) pixelIdx;
          g = loadNum hp (refData bg) (pixelIdx + 1);
          b = loadNum hp (refData bg) (pixelIdx + 2);
          a = loadNum hp (refData bg) (pixelIdx + 3);
          shadowBlend = alphaBlend r g b a
             (loadNum hp (refData shadow) pixelIdx) (loadNum hp (refData shadow) (pixelIdx + 1))
             (loadNum hp (refData shadow) (pixelIdx + 2)) (loadNum hp (refData shadow) (pixelIdx + 3));
          foregroundBlend =
            (case shadowBlend of (r', g', b', a') \<Rightarrow>
               alphaBlend r' g' b' a'
                 (loadNum hp (refData fg) pixelIdx) (loadNum hp (refData fg) (pixelIdx + 1))
                 (loadNum hp (refData fg) (pixelIdx + 2)) (loadNum hp (refData fg) (pixelIdx + 3)))
      in storePixelH hp (refData result) (i * 4) foregroundBlend)"

definition compositeH :: "Heap \<Rightarrow> ImageDataRef \<Rightarrow> ImageDataRef \<Rightarrow> ImageDataRef \<Rightarrow> ImageDataRef \<times> Heap" where
  "compositeH hp bg shadow fg =
     (let w = refWidth bg; h = refHeight bg in
      case newImageData hp w h of (result, hp1) \<Rightarrow>
        (result, fold (compositePixelH bg shadow fg result) [0..<w * h] hp1))"

subsection \<open>ShadowGenerator.generate\<close>

text \<open>
  The nine steps in order. \<^verbatim>\<open>detect\<close> only reads the silhouette, so it is
  applied to the contents of that buffer. The result is \<open>None\<close> when
  \<^verbatim>\<open>project\<close> does not return.
\<close>

definition generateH :: "MathUtils \<Rightarrow> Heap \<Rightarrow> ImageSetRef \<Rightarrow> ShadowConfig \<Rightarrow> (ShadowResultRef \<times> Heap) option" where
  "generateH m hp images config =
     (let w = refWidth (foregroundRef images);
          h = refHeight (foregroundRef images)
      in
      case extractH hp (foregroundRef images) 10 of (silhouette, hp1) \<Rightarrow>
        let lightVector = calculate (lightAngle config) (lightElevation config);
            shadowLengthMultiplier = getShadowLengthMultiplier (lightElevation config);
            shadowLength = shadowLengthMultiplier * maxShadowDistance config;
            contactLine = detect (bufU8 hp1 silhouette) w h
        in
        case computeH hp1 silhouette contactLine w h of (distanceMap, hp2) \<Rightarrow>
          (case projectH hp2 silhouette w h lightVector shadowLength (depthMapRef images) of
             None \<Rightarrow> None
           | Some (projected, hp3) \<Rightarrow>
               (case removeOcclusionsH hp3 projected silhouette w h of (shadowMask, hp4) \<Rightarrow>
                case createShadowLayerH m hp4 shadowMask distanceMap config w h of (shadowLayer0, hp5) \<Rightarrow>
                case applyDistanceWeightedBlurH m hp5 shadowLayer0 distanceMap
                       (minBlurRadius config) (maxBlurRadius config) (maxShadowDistance config)
                  of (shadowLayer, hp6) \<Rightarrow>
                case maskToImageDataH hp6 silhouette w h of (maskDebug, hp7) \<Rightarrow>
                case compositeH hp7 (backgroundRef images) shadowLayer (foregroundRef images)
                  of (composite', hp8) \<Rightarrow>
                  Some (\<lparr>shadowOnlyRef = shadowLayer, maskDebugRef = maskDebug,
                         compositeRef = composite'\<rparr>, hp8))))"

subsection \<open>What a run may change\<close>

text \<open>
  \<open>modifiesOnlyU8 a hp hp'\<close>: the two stores differ at most in the byte buffer at
  address \<open>a\<close>; \<open>modifiesOnlyF32\<close> likewise for a float buffer; \<open>extendsHeap hp hp'\<close>:
  \<open>hp'\<close> is \<open>hp\<close> with buffers added at new addresses.
\<close>

definition modifiesOnlyU8 :: "nat \<Rightarrow> Heap \<Rightarrow> Heap \<Rightarrow> bool" where
  "modifiesOnlyU8 a hp hp' =
     (f32 hp' = f32 hp \<and> length (u8 hp') = length (u8 hp) \<and>
      (\<forall>b < length (u8 hp). b \<noteq> a \<longrightarrow> u8 hp' ! b = u8 hp ! b))"

definition modifiesOnlyF32 :: "nat \<Rightarrow> Heap \<Rightarrow> Heap \<Rightarrow> bool" where
  "modifiesOnlyF32 a hp hp' =
     (u8 hp' = u8 hp \<and> length (f32 hp') = length (f32 hp) \<and>
      (\<forall>b < length (f32 hp). b \<noteq> a \<longrightarrow> f32 hp' ! b = f32 hp ! b))"

definition extendsHeap :: "Heap \<Rightarrow> Heap \<Rightarrow> bool" where
  "extendsHeap hp hp' =
     (take (length (u8 hp)) (u8 hp') = u8 hp \<and> take (length (f32 hp)) (f32 hp') = f32 hp)"

section \<open>Auxiliary definitions of the proofs\<close>

text \<open>What one column contributes to the contact line.\<close>

definition columnPoint :: "uint8 list \<Rightarrow> nat \<Rightarrow> nat \<Rightarrow> nat \<Rightarrow> Point list" where
  "columnPoint msk w h x =
     (if scanColumn msk w x h \<ge> 0 then [(int x, scanColumn msk w x h)] else [])"

text \<open>The index and the value of the store of \<^verbatim>\<open>compute\<close> for the cell \<open>(y, x)\<close>.\<close>

definition cellIndex :: "nat \<Rightarrow> nat \<times> nat \<Rightarrow> nat" where
  "cellIndex w p = (case p of (y, x) \<Rightarrow> y * w + x)"

definition cellDistance :: "uint8 list \<Rightarrow> Point list \<Rightarrow> nat \<Rightarrow> nat \<times> nat \<Rightarrow> dist" where
  "cellDistance msk pts w p =
     (case p of (y, x) \<Rightarrow>
        if readU8 msk (y * w + x) = Some 0 then Finite 0 else minDistance x y pts)"

text \<open>The \<^verbatim>\<open>count\<close> component of the running sums of the blur.\<close>

definition sampleCount :: "blurAcc \<Rightarrow> nat" where
  "sampleCount acc = (case acc of (r, g, b, a, count) \<Rightarrow> count)"

text \<open>
  The index \<open>i\<close> is an in-bounds cell of row \<open>y\<close> whose column lies between
  \<open>endX\<close> and \<open>x\<close>.
\<close>

definition onRow :: "nat \<Rightarrow> nat \<Rightarrow> int \<Rightarrow> int \<Rightarrow> int \<Rightarrow> nat \<Rightarrow> bool" where
  "onRow w h endX x y i =
     (\<exists>x'. endX \<le> x' \<and> x' \<le> x \<and> 0 \<le> x' \<and> x' < int w \<and> 0 \<le> y \<and> y < int h \<and>
           i = nat (y * int w + x'))"

text \<open>The \<open>w\<close> by \<open>h\<close> mask whose only opaque pixel is \<open>(px, py)\<close>.\<close>

definition singlePixel :: "nat \<Rightarrow> nat \<Rightarrow> nat \<Rightarrow> nat \<Rightarrow> uint8 list" where
  "singlePixel w h px py = (replicate (w * h) 0)[py * w + px := 1]"

text \<open>The store and the buffer address in a state of \<open>drawLoopH\<close>.\<close>

definition loopHeap :: "lineParams \<times> (Heap \<times> nat) lineState \<Rightarrow> Heap" where
  "loopHeap cs = fst (fst (snd cs))"

definition loopBuffer :: "lineParams \<times> (Heap \<times> nat) lineState \<Rightarrow> nat" where
  "loopBuffer cs = snd (fst (snd cs))"

text \<open>
  A concrete run: a 1 x 1 transparent foreground at address 0, a 1 x 1 background at
  address 1, the default configuration, and the formulas of the spec for the
  functions of \<^verbatim>\<open>utils/math\<close>.
\<close>

definition exampleMath :: MathUtils where
  "exampleMath =
     \<lparr>exponentialFalloff =
        (\<lambda>d c f mx. case d of Some (Finite r) \<Rightarrow> Some (c * exp (- f * r / mx)) | _ \<Rightarrow> None),
      normalize =
        (\<lambda>d lo hi. case d of Some (Finite r) \<Rightarrow> Some (min (max ((r - lo) / (hi - lo)) 0) 1) | _ \<Rightarrow> None),
      lerp = (\<lambda>a b t. nadd (Some a) (nmul (Some (b - a)) t))\<rparr>"

definition exampleHeap :: Heap where
  "exampleHeap = \<lparr>u8 = [[0, 0, 0, 0], [9, 9, 9, 255]], f32 = []\<rparr>"

definition exampleImages :: ImageSetRef where
  "exampleImages =
     \<lparr>foregroundRef = \<lparr>refWidth = 1, refHeight = 1, refData = 0\<rparr>,
      backgroundRef = \<lparr>refWidth = 1, refHeight = 1, refData = 1\<rparr>,
      depthMapRef = None\<rparr>"

definition exampleConfig :: ShadowConfig where
  "exampleConfig =
     \<lparr>lightAngle = 135, lightElevation = 45, maxShadowDistance = 150,
      contactOpacity = 3 / 4, falloffRate = 4, minBlurRadius = 1, maxBlurRadius = 10\<rparr>"

text \<open>A store with one more byte buffer, or one more float buffer, at the next address.\<close>

definition pushU8 :: "Heap \<Rightarrow> uint8 list \<Rightarrow> Heap" where
  "pushU8 hp buf = hp\<lparr>u8 := u8 hp @ [buf]\<rparr>"

definition pushF32 :: "Heap \<Rightarrow> dist list \<Rightarrow> Heap" where
  "pushF32 hp buf = hp\<lparr>f32 := f32 hp @ [buf]\<rparr>"

text \<open>The variables \<^verbatim>\<open>err\<close>, \<^verbatim>\<open>x\<close>, \<^verbatim>\<open>y\<close> in a state of \<open>drawLoopH\<close>.\<close>

definition loopState :: "lineParams \<times> (Heap \<times> nat) lineState \<Rightarrow> real \<times> int \<times> int" where
  "loopState cs = snd (snd cs)"

text \<open>
  A second run: the 1 x 1 foreground is opaque, the light comes from 30 degrees at
  elevation 0 and the maximal shadow distance is a tenth of a pixel.
\<close>

definition opaqueHeap :: Heap where
  "opaqueHeap = \<lparr>u8 = [[0, 0, 0, 255], [9, 9, 9, 255]], f32 = []\<rparr>"

definition lowSunConfig :: ShadowConfig where
  "lowSunConfig =
     \<lparr>lightAngle = 30, lightElevation = 0, maxShadowDistance = 1 / 10,
      contactOpacity = 9 / 10, falloffRate = 3, minBlurRadius = 1, maxBlurRadius = 10\<rparr>"

section \<open>Lemmas on folds that mark cells\<close>

lemma fold_mark_length:
  "length (fold (\<lambda>i r. if c i then r[i := v] else r) xs init) = length init"
  by (induction xs arbitrary: init) auto

lemma fold_mark_nth:
  "j < length init \<Longrightarrow>
   fold (\<lambda>i r. if c i then r[i := v] else r) xs init ! j =
     (if j \<in> set xs \<and> c j then v else init ! j)"
proof (induction xs arbitrary: init)
  case Nil
  then show ?case by simp
next
  case (Cons e xs)
  show ?case
  proof (cases "e = j")
    case True
    with Cons show ?thesis by (simp add: fold_mark_length)
  next
    case False
    with Cons show ?thesis by (simp add: fold_mark_length)
  qed
qed

section \<open>ShadowProjector: the line loop\<close>

text \<open>
  Once the loop is beyond its end row in the direction it steps, every later
  state is too, so it never returns. The proof is the partial-correctness induction of
  \<open>drawLoop\<close>: a run that returns was never past its end.
\<close>

lemma drawLoop_not_pastEnd:
  assumes "drawLoop cs = Some r"
  shows "\<not> pastEnd cs"
proof (rule drawLoop.raw_induct[where P = "\<lambda>cs r. \<not> pastEnd cs", OF _ assms])
  fix f cs r
  assume IH: "\<And>cs' r'. f cs' = Some r' \<Longrightarrow> \<not> pastEnd cs'"
    and eq: "(case cs of
               ((w, h, adx, ady, sx, sy, endX, endY), buffer, err, x, y) \<Rightarrow>
                 let buffer' = markPixel buffer w h x y
                 in if x = endX \<and> y = endY then Some buffer'
                    else f ((w, h, adx, ady, sx, sy, endX, endY),
                           lineStep (w, h, adx, ady, sx, sy, endX, endY) (buffer', err, x, y))) = Some r"
  obtain w h adx ady sx sy endX endY buffer err x y
    where cs: "cs = ((w, h, adx, ady, sx, sy, endX, endY), (buffer, err, x, y))"
    by (metis prod.collapse)
  show "\<not> pastEnd cs"
  proof
    assume p: "pastEnd cs"
    from p cs have ne: "y \<noteq> endY" by (auto simp: pastEnd_def)
    with eq cs have "f ((w, h, adx, ady, sx, sy, endX, endY),
        lineStep (w, h, adx, ady, sx, sy, endX, endY) (markPixel buffer w h x y, err, x, y)) = Some r"
      by (simp add: Let_def)
    from IH[OF this] p cs show False
      by (auto simp: lineStep_def Let_def pastEnd_def split: if_splits)
  qed
qed

lemma drawLoop_past_end:
  "endY < y \<Longrightarrow> drawLoop ((w, h, adx, ady, sx, 1, endX, endY), (buffer, err, x, y)) = None"
  using drawLoop_not_pastEnd[of "((w, h, adx, ady, sx, 1, endX, endY), (buffer, err, x, y))"]
  by (cases "drawLoop ((w, h, adx, ady, sx, 1, endX, endY), (buffer, err, x, y))")
     (auto simp: pastEnd_def)

lemma drawLoop_past_end_up:
  "y < endY \<Longrightarrow> drawLoop ((w, h, adx, ady, sx, - 1, endX, endY), (buffer, err, x, y)) = None"
  using drawLoop_not_pastEnd[of "((w, h, adx, ady, sx, - 1, endX, endY), (buffer, err, x, y))"]
  by (cases "drawLoop ((w, h, adx, ady, sx, - 1, endX, endY), (buffer, err, x, y))")
     (auto simp: pastEnd_def)

text \<open>
  From \<open>(0, 0)\<close> to \<open>(5/8, 3/8)\<close>: the end point rounds to \<open>(1, 0)\<close>, neither
  coordinate being a tie. With \<^verbatim>\<open>dx = 5/8\<close>, \<^verbatim>\<open>dy = 3/8\<close> and \<^verbatim>\<open>err = 1/4\<close> the
  first iteration steps in both directions, to \<open>(1, 1)\<close>, which is below the end
  row.
\<close>

lemma drawLine_fraction_diverges: "drawLine buffer 1 1 0 0 (5 / 8) (3 / 8) = None"
  unfolding drawLine_def
  apply (simp add: jsRound_def Let_def)
  apply (subst drawLoop.simps, simp add: lineStep_def Let_def markPixel_def)
  apply (rule drawLoop_past_end)
  apply simp
  done

text \<open>
  C1. The claim: \<^verbatim>\<open>project\<close> returns a shadow mask for every input, since the loop
  of \<^verbatim>\<open>drawLine\<close> ends for every real start and end point. On the 1 x 1 mask
  with its pixel opaque, the light vector \<open>(-5/8, -3/8, 0)\<close> and \<^verbatim>\<open>maxDistance = 1\<close>
  (all exact as doubles), \<^verbatim>\<open>drawLine\<close> is called from \<open>(0, 0)\<close> to \<open>(5/8, 3/8)\<close>
  and never returns, so \<^verbatim>\<open>project\<close> does not return either.
\<close>

theorem project_diverges:
  "project [1] 1 1 \<lparr>dx = - (5 / 8), dy = - (3 / 8), dz = 0\<rparr> 1 None = None"
  using drawLine_fraction_diverges
  by (simp add: project_def projectPixel_def warpFactor_def readU8_def)

section \<open>ShadowProjector: the line against integer Bresenham\<close>

lemma drawLine_fractional:
  "drawLine [0, 0, 0, 0, 0, 0, 0, 0] 4 2 0 0 (13 / 4) (3 / 4) = Some [1, 1, 1, 0, 0, 0, 0, 1]"
  unfolding drawLine_def
  apply (simp add: jsRound_def Let_def)
  apply (subst drawLoop.simps, simp add: lineStep_def Let_def markPixel_def)
  apply (subst drawLoop.simps, simp add: lineStep_def Let_def markPixel_def)
  apply (subst drawLoop.simps, simp add: lineStep_def Let_def markPixel_def)
  apply (subst drawLoop.simps, simp add: lineStep_def Let_def markPixel_def)
  done

lemma bresenham_3_1: "bresenham 0 0 3 1 = Some [(0, 0), (1, 0), (2, 1), (3, 1)]"
  unfolding bresenham_def
  apply (simp add: Let_def)
  apply (subst bresenhamLoop.simps, simp add: cellStep_def Let_def)
  apply (subst bresenhamLoop.simps, simp add: cellStep_def Let_def)
  apply (subst bresenhamLoop.simps, simp add: cellStep_def Let_def)
  apply (subst bresenhamLoop.simps, simp add: cellStep_def Let_def)
  done

lemma bresenhamRounded_fractional:
  "bresenhamRounded [0, 0, 0, 0, 0, 0, 0, 0] 4 2 0 0 (13 / 4) (3 / 4) = Some [1, 1, 0, 0, 0, 0, 1, 1]"
proof -
  have "jsRound 0 = 0" "jsRound (13 / 4) = 3" "jsRound (3 / 4) = 1"
    by (simp_all add: jsRound_def)
  then show ?thesis
    by (simp add: bresenhamRounded_def bresenham_3_1 markCells_def markPixel_def)
qed

text \<open>
  C2. The claim: the cells \<^verbatim>\<open>project\<close> marks for an opaque pixel are the in-bounds
  cells of integer Bresenham between the rounded start and the rounded end point.
  On the 4 x 2 mask with only \<open>(0, 0)\<close> opaque, the light vector \<open>(-13/4, -3/4, 0)\<close>
  and \<^verbatim>\<open>maxDistance = 1\<close>, the end point is \<open>(13/4, 3/4)\<close> and rounds to \<open>(3, 1)\<close>.
  \<^verbatim>\<open>project\<close> marks \<open>(0,0)\<close>, \<open>(1,0)\<close>, \<open>(2,0)\<close>, \<open>(3,1)\<close>; integer Bresenham
  from \<open>(0,0)\<close> to \<open>(3,1)\<close> marks \<open>(0,0)\<close>, \<open>(1,0)\<close>, \<open>(2,1)\<close>, \<open>(3,1)\<close>. In
  column 2 the segment between the rounded points is at height \<open>2/3\<close>, nearer to
  row 1, so the difference is not one of breaking a tie.
\<close>

theorem project_differs_from_bresenham:
  "project [1, 0, 0, 0, 0, 0, 0, 0] 4 2 \<lparr>dx = - (13 / 4), dy = - (3 / 4), dz = 0\<rparr> 1 None
     = Some [1, 1, 1, 0, 0, 0, 0, 1]
   \<and> bresenhamRounded (replicate (4 * 2) 0) 4 2 0 0 (0 - (- (13 / 4)) * 1 * 1) (0 - (- (3 / 4)) * 1 * 1)
     = Some [1, 1, 0, 0, 0, 0, 1, 1]"
proof -
  have l: "List.product [0..<2] [0..<4] = [(0,0),(0,1),(0,2),(0,3),(1,0),(1,1),(1,2),(1,3)]"
    by (simp add: upt_rec)
  have r: "replicate (4 * 2) (0::uint8) = [0, 0, 0, 0, 0, 0, 0, 0]"
    by (simp add: numeral_eq_Suc)
  have "project [1, 0, 0, 0, 0, 0, 0, 0] 4 2 \<lparr>dx = - (13 / 4), dy = - (3 / 4), dz = 0\<rparr> 1 None
          = Some [1, 1, 1, 0, 0, 0, 0, 1]"
    unfolding project_def l r
    using drawLine_fractional
    by (simp add: projectPixel_def warpFactor_def readU8_def)
  moreover have "bresenhamRounded (replicate (4 * 2) 0) 4 2 0 0
      (0 - (- (13 / 4)) * 1 * 1) (0 - (- (3 / 4)) * 1 * 1) = Some [1, 1, 0, 0, 0, 0, 1, 1]"
    unfolding r using bresenhamRounded_fractional by simp
  ultimately show ?thesis by simp
qed

section \<open>ShadowProjector.removeOcclusions\<close>

lemma removeOcclusions_length: "length (removeOcclusions s m w h) = w * h"
  by (simp add: removeOcclusions_def fold_mark_length)

lemma removeOcclusions_nth:
  "i < w * h \<Longrightarrow> removeOcclusions s m w h ! i =
     (if readU8 s i = Some 1 \<and> readU8 m i = Some 0 then 1 else 0)"
  by (auto simp: removeOcclusions_def fold_mark_nth readU8_def)

text \<open>
  C5. Removing the occlusions twice with the same silhouette mask gives what
  removing them once gives, and no cell of the result is 1 where the silhouette
  mask is 1. This holds for all buffers and dimensions, also of unequal sizes.
\<close>

theorem removeOcclusions_idempotent_disjoint:
  "removeOcclusions (removeOcclusions s m w h) m w h = removeOcclusions s m w h \<and>
   (\<forall>i. \<not> (readU8 (removeOcclusions s m w h) i = Some 1 \<and> readU8 m i = Some 1))"
proof
  show "removeOcclusions (removeOcclusions s m w h) m w h = removeOcclusions s m w h"
  proof (rule nth_equalityI)
    show "length (removeOcclusions (removeOcclusions s m w h) m w h)
            = length (removeOcclusions s m w h)"
      by (simp add: removeOcclusions_length)
  next
    fix i assume "i < length (removeOcclusions (removeOcclusions s m w h) m w h)"
    then have i: "i < w * h" by (simp add: removeOcclusions_length)
    then show "removeOcclusions (removeOcclusions s m w h) m w h ! i
                 = removeOcclusions s m w h ! i"
      by (simp add: removeOcclusions_nth)
         (simp add: readU8_def removeOcclusions_length removeOcclusions_nth)
  qed
next
  show "\<forall>i. \<not> (readU8 (removeOcclusions s m w h) i = Some 1 \<and> readU8 m i = Some 1)"
    by (auto simp: readU8_def removeOcclusions_length removeOcclusions_nth split: if_splits)
qed

section \<open>ShadowProjector: the line loop on integer end points\<close>

text \<open>
  When the start and the end point are integers, \<^verbatim>\<open>dx\<close>, \<^verbatim>\<open>dy\<close> and \<^verbatim>\<open>err\<close> are
  integers too and the loop of \<^verbatim>\<open>drawLine\<close> runs in step with the integer
  algorithm: after \<open>i\<close> steps in \<open>x\<close> and \<open>j\<close> steps in \<open>y\<close> the error term is
  \<open>DX - DY - i * DY + j * DX\<close>, no step leaves the box of the two end points
  and every iteration makes a step, so the loop returns. The behaviour shown
  for C1 and C2 needs a fractional end point.
\<close>

lemma drawLoop_exit:
  "drawLoop ((w, h, adx, ady, sx, sy, x, y), (buffer, err, x, y)) = Some (markPixel buffer w h x y)"
  by (subst drawLoop.simps) simp

lemma drawLoop_step:
  "\<not> (x = endX \<and> y = endY) \<Longrightarrow>
   drawLoop ((w, h, adx, ady, sx, sy, endX, endY), (buffer, err, x, y))
     = drawLoop ((w, h, adx, ady, sx, sy, endX, endY),
                 lineStep (w, h, adx, ady, sx, sy, endX, endY) (markPixel buffer w h x y, err, x, y))"
  by (subst drawLoop.simps) (auto simp: Let_def)

lemma bresenhamLoop_exit:
  "bresenhamLoop ((idx, idy, sx, sy, x, y), (cells, err, x, y)) = Some (cells @ [(x, y)])"
  by (subst bresenhamLoop.simps) simp

lemma bresenhamLoop_step:
  "\<not> (x = x1 \<and> y = y1) \<Longrightarrow>
   bresenhamLoop ((idx, idy, sx, sy, x1, y1), (cells, err, x, y))
     = bresenhamLoop ((idx, idy, sx, sy, x1, y1),
                      cellStep (idx, idy, sx, sy, x1, y1) (cells @ [(x, y)], err, x, y))"
  by (subst bresenhamLoop.simps) (auto simp: Let_def)

lemma sign_cancel:
  fixes s :: int
  assumes "s = 1 \<or> s = - 1"
  shows "(X + s * i = X + s * D) = (i = D)"
  using assms by auto

lemma real_cmp_int:
  "(- real_of_int D < 2 * real_of_int e) = (- D < 2 * e)"
  "(2 * real_of_int e < real_of_int D) = (2 * e < D)"
proof -
  have "(real_of_int (- D) < real_of_int (2 * e)) = (- D < 2 * e)" by (simp only: of_int_less_iff)
  then show "(- real_of_int D < 2 * real_of_int e) = (- D < 2 * e)" by simp
  have "(real_of_int (2 * e) < real_of_int D) = (2 * e < D)" by (simp only: of_int_less_iff)
  then show "(2 * real_of_int e < real_of_int D) = (2 * e < D)" by simp
qed

lemma loops_on_integers:
  fixes DX DY i j sx sy X0 Y0 :: int
  assumes s: "sx = 1 \<or> sx = - 1" "sy = 1 \<or> sy = - 1"
  shows "0 \<le> i \<Longrightarrow> i \<le> DX \<Longrightarrow> 0 \<le> j \<Longrightarrow> j \<le> DY \<Longrightarrow>
    \<exists>cells.
      bresenhamLoop ((DX, DY, sx, sy, X0 + sx * DX, Y0 + sy * DY),
                     (acc, DX - DY - i * DY + j * DX, X0 + sx * i, Y0 + sy * j)) = Some (acc @ cells) \<and>
      drawLoop ((w, h, real_of_int DX, real_of_int DY, sx, sy, X0 + sx * DX, Y0 + sy * DY),
                (buffer, real_of_int (DX - DY - i * DY + j * DX), X0 + sx * i, Y0 + sy * j))
        = Some (markCells w h cells buffer)"
proof (induction "nat ((DX - i) + (DY - j))" arbitrary: i j acc buffer rule: less_induct)
  case less
  define err where "err = DX - DY - i * DY + j * DX"
  define x where "x = X0 + sx * i"
  define y where "y = Y0 + sy * j"
  define endX where "endX = X0 + sx * DX"
  define endY where "endY = Y0 + sy * DY"
  let ?cb = "(DX, DY, sx, sy, endX, endY)"
  let ?cd = "(w, h, real_of_int DX, real_of_int DY, sx, sy, endX, endY)"
  have ex: "(x = endX \<and> y = endY) = (i = DX \<and> j = DY)"
    unfolding x_def y_def endX_def endY_def
    using sign_cancel[OF s(1)] sign_cancel[OF s(2)] by simp
  have "\<exists>cells. bresenhamLoop (?cb, (acc, err, x, y)) = Some (acc @ cells) \<and>
      drawLoop (?cd, (buffer, real_of_int err, x, y)) = Some (markCells w h cells buffer)"
  proof (cases "i = DX \<and> j = DY")
    case True
    with ex have xy: "x = endX" "y = endY" by blast+
    have "bresenhamLoop (?cb, (acc, err, x, y)) = Some (acc @ [(x, y)])"
      unfolding xy by (rule bresenhamLoop_exit)
    moreover have "drawLoop (?cd, (buffer, real_of_int err, x, y)) = Some (markPixel buffer w h x y)"
      unfolding xy by (rule drawLoop_exit)
    then have "drawLoop (?cd, (buffer, real_of_int err, x, y)) = Some (markCells w h [(x, y)] buffer)"
      by (simp add: markCells_def)
    ultimately show ?thesis by blast
  next
    case False
    with ex have ne: "\<not> (x = endX \<and> y = endY)" by blast
    define stepX where "stepX = (- DY < 2 * err)"
    define stepY where "stepY = (2 * err < DX)"
    define i' where "i' = (if stepX then i + 1 else i)"
    define j' where "j' = (if stepY then j + 1 else j)"
    define err' where "err' = DX - DY - i' * DY + j' * DX"
    have DXn: "0 \<le> DX" and DYn: "0 \<le> DY" using less.prems by simp_all
    have nx: "i < DX" if "stepX"
    proof (rule ccontr)
      assume "\<not> i < DX"
      with less.prems have i: "i = DX" by simp
      with False less.prems have "j < DY" by simp
      then have "DX * (1 - DY + j) \<le> 0" using DXn by (intro mult_nonneg_nonpos) simp_all
      then have "err \<le> - DY" unfolding err_def i by (simp add: algebra_simps)
      with DYn that show False unfolding stepX_def by simp
    qed
    have ny: "j < DY" if "stepY"
    proof (rule ccontr)
      assume "\<not> j < DY"
      with less.prems have j: "j = DY" by simp
      with False less.prems have "i < DX" by simp
      then have "0 \<le> DY * (DX - 1 - i)" using DYn by (intro mult_nonneg_nonneg) simp_all
      then have "DX \<le> err" unfolding err_def j by (simp add: algebra_simps)
      with DXn that show False unfolding stepY_def by simp
    qed
    have some: "stepX \<or> stepY"
    proof (rule ccontr)
      assume "\<not> (stepX \<or> stepY)"
      then have "2 * err \<le> - DY" "DX \<le> 2 * err" unfolding stepX_def stepY_def by simp_all
      then have "DX + DY \<le> 0" by simp
      with DXn DYn less.prems have "i = DX \<and> j = DY" by simp
      with False show False ..
    qed
    have b: "0 \<le> i'" "i' \<le> DX" "0 \<le> j'" "j' \<le> DY"
      using less.prems nx ny unfolding i'_def j'_def by auto
    have m: "nat ((DX - i') + (DY - j')) < nat ((DX - i) + (DY - j))"
      using some less.prems b nx ny unfolding i'_def j'_def by auto
    have e': "err' = (if stepY then (if stepX then err - DY else err) + DX
                      else (if stepX then err - DY else err))"
      unfolding err'_def err_def i'_def j'_def by (simp add: algebra_simps)
    have x': "X0 + sx * i' = (if stepX then x + sx else x)"
      unfolding i'_def x_def by (simp add: algebra_simps)
    have y': "Y0 + sy * j' = (if stepY then y + sy else y)"
      unfolding j'_def y_def by (simp add: algebra_simps)
    have cX: "(- real_of_int DY < 2 * real_of_int err) = stepX"
      and cY: "(2 * real_of_int err < real_of_int DX) = stepY"
      unfolding stepX_def stepY_def by (rule real_cmp_int)+
    have sb: "bresenhamLoop (?cb, (acc, err, x, y))
        = bresenhamLoop (?cb, (acc @ [(x, y)], err', X0 + sx * i', Y0 + sy * j'))"
    proof -
      have "cellStep ?cb (acc @ [(x, y)], err, x, y)
            = (acc @ [(x, y)], err', X0 + sx * i', Y0 + sy * j')"
        unfolding e' x' y' cellStep_def stepX_def stepY_def by (simp add: Let_def)
      with bresenhamLoop_step[OF ne] show ?thesis by simp
    qed
    have sd: "drawLoop (?cd, (buffer, real_of_int err, x, y))
        = drawLoop (?cd, (markPixel buffer w h x y, real_of_int err', X0 + sx * i', Y0 + sy * j'))"
    proof -
      have "lineStep ?cd (markPixel buffer w h x y, real_of_int err, x, y)
            = (markPixel buffer w h x y, real_of_int err', X0 + sx * i', Y0 + sy * j')"
        unfolding e' x' y' lineStep_def prod.case Let_def cX cY
        by (cases stepX; cases stepY) simp_all
      with drawLoop_step[OF ne] show ?thesis by simp
    qed
    from less.hyps[OF m b, of "acc @ [(x, y)]" "markPixel buffer w h x y"]
    obtain cells where c:
      "bresenhamLoop (?cb, (acc @ [(x, y)], err', X0 + sx * i', Y0 + sy * j'))
         = Some ((acc @ [(x, y)]) @ cells)"
      "drawLoop (?cd, (markPixel buffer w h x y, real_of_int err', X0 + sx * i', Y0 + sy * j'))
         = Some (markCells w h cells (markPixel buffer w h x y))"
      unfolding err'_def endX_def endY_def by blast
    have "bresenhamLoop (?cb, (acc, err, x, y)) = Some (acc @ ((x, y) # cells))"
      using sb c(1) by simp
    moreover have "drawLoop (?cd, (buffer, real_of_int err, x, y))
        = Some (markCells w h ((x, y) # cells) buffer)"
      using sd c(2) by (simp add: markCells_def)
    ultimately show ?thesis by blast
  qed
  then show ?case unfolding err_def x_def y_def endX_def endY_def .
qed

lemma jsRound_of_int: "jsRound (real_of_int X) = X"
  by (simp add: jsRound_def)

lemma drawLine_integer:
  fixes X0 Y0 X1 Y1 :: int
  shows "\<exists>cells. bresenham X0 Y0 X1 Y1 = Some cells \<and>
           drawLine buffer w h (real_of_int X0) (real_of_int Y0) (real_of_int X1) (real_of_int Y1)
             = Some (markCells w h cells buffer)"
proof -
  define DX where "DX = \<bar>X1 - X0\<bar>"
  define DY where "DY = \<bar>Y1 - Y0\<bar>"
  define sx :: int where "sx = (if X0 < X1 then 1 else - 1)"
  define sy :: int where "sy = (if Y0 < Y1 then 1 else - 1)"
  have s: "sx = 1 \<or> sx = - 1" "sy = 1 \<or> sy = - 1" by (simp_all add: sx_def sy_def)
  have e: "X0 + sx * DX = X1" "Y0 + sy * DY = Y1"
    by (simp_all add: sx_def sy_def DX_def DY_def)
  have n: "0 \<le> DX" "0 \<le> DY" by (simp_all add: DX_def DY_def)
  from loops_on_integers[OF s, of 0 DX 0 DY X0 Y0 "[]" w h buffer] n
  obtain cells where c:
    "bresenhamLoop ((DX, DY, sx, sy, X1, Y1), ([], DX - DY, X0, Y0)) = Some cells"
    "drawLoop ((w, h, real_of_int DX, real_of_int DY, sx, sy, X1, Y1),
               (buffer, real_of_int (DX - DY), X0, Y0)) = Some (markCells w h cells buffer)"
    unfolding e by auto
  have b: "bresenham X0 Y0 X1 Y1 = Some cells"
    using c(1) by (simp add: bresenham_def Let_def DX_def DY_def sx_def sy_def)
  have ax: "\<bar>real_of_int X1 - real_of_int X0\<bar> = real_of_int DX"
    and ay: "\<bar>real_of_int Y1 - real_of_int Y0\<bar> = real_of_int DY"
    by (simp_all add: DX_def DY_def)
  have "drawLine buffer w h (real_of_int X0) (real_of_int Y0) (real_of_int X1) (real_of_int Y1)
        = drawLoop ((w, h, real_of_int DX, real_of_int DY, sx, sy, X1, Y1),
                    (buffer, real_of_int (DX - DY), X0, Y0))"
    unfolding drawLine_def Let_def ax ay jsRound_of_int
    by (simp add: sx_def sy_def)
  with b c(2) show ?thesis by simp
qed

lemma drawLine_integer_bresenham:
  fixes X0 Y0 X1 Y1 :: int
  shows "drawLine buffer w h (real_of_int X0) (real_of_int Y0) (real_of_int X1) (real_of_int Y1)
           = bresenhamRounded buffer w h (real_of_int X0) (real_of_int Y0) (real_of_int X1) (real_of_int Y1)
         \<and> drawLine buffer w h (real_of_int X0) (real_of_int Y0) (real_of_int X1) (real_of_int Y1) \<noteq> None"
  using drawLine_integer[of X0 Y0 X1 Y1 buffer w h]
  by (auto simp: bresenhamRounded_def jsRound_of_int)

section \<open>ContactLineDetector.detect\<close>

lemma scanColumn_bounds: "- 1 \<le> scanColumn msk w x n \<and> scanColumn msk w x n < int n"
  by (induction n) auto

lemma scanColumn_opaque:
  "0 \<le> scanColumn msk w x n \<Longrightarrow> readU8 msk (nat (scanColumn msk w x n) * w + x) = Some 1"
  by (induction n) (auto split: if_splits)

lemma scanColumn_lowest:
  "scanColumn msk w x n < int y' \<Longrightarrow> y' < n \<Longrightarrow> readU8 msk (y' * w + x) \<noteq> Some 1"
proof (induction n)
  case 0
  then show ?case by simp
next
  case (Suc n)
  show ?case
  proof (cases "y' = n")
    case True
    with Suc.prems show ?thesis by (auto split: if_splits)
  next
    case False
    with Suc.prems have "y' < n" by simp
    moreover from Suc.prems have "scanColumn msk w x n < int y'"
      using scanColumn_bounds[of msk w x n] by (auto split: if_splits)
    ultimately show ?thesis using Suc.IH by simp
  qed
qed

lemma detect_fold:
  "fold (\<lambda>x pts. let lowestY = scanColumn msk w x h
                  in if lowestY \<ge> 0 then pts @ [(int x, lowestY)] else pts) xs init
   = init @ concat (map (columnPoint msk w h) xs)"
  by (induction xs arbitrary: init) (auto simp: columnPoint_def Let_def)

lemma detect_points: "points (detect msk w h) = concat (map (columnPoint msk w h) [0..<w])"
  by (simp add: detect_def detect_fold)

lemma detect_set:
  "p \<in> set (points (detect msk w h)) \<longleftrightarrow>
     (\<exists>x < w. 0 \<le> scanColumn msk w x h \<and> p = (int x, scanColumn msk w x h))"
  by (auto simp: detect_points columnPoint_def split: if_splits)

lemma map_fst_columnPoints:
  "map fst (concat (map (columnPoint msk w h) xs)) = map int (filter (\<lambda>x. 0 \<le> scanColumn msk w x h) xs)"
  by (induction xs) (auto simp: columnPoint_def)

lemma detect_distinct: "distinct (map fst (points (detect msk w h)))"
  by (simp add: detect_points map_fst_columnPoints distinct_map inj_on_def)

text \<open>
  C3. Every point \<open>(x, y)\<close> of the contact line that \<^verbatim>\<open>detect\<close> returns lies
  inside the \<open>w\<close> by \<open>h\<close> frame, its mask entry is 1, no row below it (a larger
  \<open>y\<close>) has a 1 in column \<open>x\<close>, and no two points share a column. A mask read
  outside the buffer counts as not opaque, as in the source.
\<close>

theorem detect_contact_line:
  "(\<forall>p \<in> set (points (detect msk w h)).
      0 \<le> fst p \<and> fst p < int w \<and> 0 \<le> snd p \<and> snd p < int h \<and>
      readU8 msk (nat (snd p) * w + nat (fst p)) = Some 1 \<and>
      (\<forall>y'. nat (snd p) < y' \<and> y' < h \<longrightarrow> readU8 msk (y' * w + nat (fst p)) \<noteq> Some 1))
   \<and> distinct (map fst (points (detect msk w h)))"
proof (intro conjI ballI)
  fix p assume "p \<in> set (points (detect msk w h))"
  then obtain x where x: "x < w" "0 \<le> scanColumn msk w x h" "p = (int x, scanColumn msk w x h)"
    by (auto simp: detect_set)
  show "0 \<le> fst p" "fst p < int w" "0 \<le> snd p" using x by simp_all
  show "snd p < int h" using x scanColumn_bounds[of msk w x h] by simp
  show "readU8 msk (nat (snd p) * w + nat (fst p)) = Some 1"
    using x scanColumn_opaque[of msk w x h] by simp
  show "\<forall>y'. nat (snd p) < y' \<and> y' < h \<longrightarrow> readU8 msk (y' * w + nat (fst p)) \<noteq> Some 1"
  proof (intro allI impI)
    fix y' assume "nat (snd p) < y' \<and> y' < h"
    then have "scanColumn msk w x h < int y'" "y' < h" using x by auto
    then show "readU8 msk (y' * w + nat (fst p)) \<noteq> Some 1"
      using scanColumn_lowest[of msk w x h y'] x by simp
  qed
next
  show "distinct (map fst (points (detect msk w h)))" by (rule detect_distinct)
qed

theorem detect_contact_line_witness:
  "points (detect [1, 0, 1, 0] 2 2) = [(0, 1)] \<and>
   readU8 [1, 0, 1, 0] (nat 1 * 2 + nat 0) = Some 1 \<and> (0::int) < int 2 \<and> (1::int) < int 2"
proof -
  have pts: "points (detect [1, 0, 1, 0] 2 2) = [(0, 1)]"
    by (simp add: detect_def upt_rec numeral_2_eq_2 readU8_def)
  have "(0, 1) \<in> set (points (detect [1, 0, 1, 0] 2 2))" by (simp add: pts)
  with detect_contact_line[of "[1, 0, 1, 0]" 2 2]
  have "readU8 [1, 0, 1, 0] (nat (snd (0::int, 1::int)) * 2 + nat (fst (0::int, 1::int))) = Some 1
        \<and> fst (0::int, 1::int) < int 2 \<and> snd (0::int, 1::int) < int 2"
    by blast
  with pts show ?thesis by simp
qed

section \<open>DistanceTransform.compute\<close>

lemma distance_nonneg: "0 \<le> distance x1 y1 x2 y2"
  by (simp add: distance_def)

lemma distance_self: "distance x1 y1 x1 y1 = 0"
  by (simp add: distance_def)

lemma fold_minDist_finite:
  "0 \<le> m \<Longrightarrow> \<exists>r\<ge>0. fold (\<lambda>point m. minDist m (distance a b (real_of_int (fst point)) (real_of_int (snd point)))) pts (Finite m) = Finite r"
  by (induction pts arbitrary: m) (auto simp: distance_nonneg)

lemma fold_minDist_zero:
  "fold (\<lambda>point m. minDist m (distance a b (real_of_int (fst point)) (real_of_int (snd point)))) pts (Finite 0) = Finite 0"
  by (induction pts) (auto simp: distance_nonneg min_def)

lemma minDistance_finite:
  "pts \<noteq> [] \<Longrightarrow> \<exists>r\<ge>0. minDistance x y pts = Finite r"
  unfolding minDistance_def
  by (cases pts) (auto simp: distance_nonneg intro: fold_minDist_finite)

lemma fold_minDist_hits_zero:
  assumes "(c, d) \<in> set pts" "distance a b (real_of_int c) (real_of_int d) = 0"
    and "m = Infinity \<or> (\<exists>r\<ge>0. m = Finite r)"
  shows "fold (\<lambda>point m. minDist m (distance a b (real_of_int (fst point)) (real_of_int (snd point)))) pts m = Finite 0"
  using assms
proof (induction pts arbitrary: m)
  case Nil
  then show ?case by simp
next
  case (Cons p pts)
  let ?d = "distance a b (real_of_int (fst p)) (real_of_int (snd p))"
  have dn: "0 \<le> ?d" by (rule distance_nonneg)
  show ?case
  proof (cases "p = (c, d)")
    case True
    with Cons.prems have "minDist m ?d = Finite 0"
      by (cases m) (auto simp: min_def)
    then show ?thesis by (simp add: fold_minDist_zero)
  next
    case False
    with Cons.prems have in': "(c, d) \<in> set pts" by simp
    have "minDist m ?d = Infinity \<or> (\<exists>r\<ge>0. minDist m ?d = Finite r)"
      using Cons.prems(3) dn by (cases m) (auto simp: min_def)
    from Cons.IH[OF in' Cons.prems(2) this] show ?thesis by simp
  qed
qed

lemma minDistance_contact:
  "(int x, int y) \<in> set pts \<Longrightarrow> minDistance x y pts = Finite 0"
  unfolding minDistance_def
  by (rule fold_minDist_hits_zero[where c = "int x" and d = "int y"]) (simp_all add: distance_self)

lemma compute_step:
  "(\<lambda>p ds. case p of (y, x) \<Rightarrow>
                     let idx = y * w + x in
                     if readU8 msk idx = Some 0 then ds[idx := Finite 0]
                     else ds[idx := minDistance x y pts])
   = (\<lambda>p ds. ds[cellIndex w p := cellDistance msk pts w p])"
  by (auto simp: fun_eq_iff cellIndex_def cellDistance_def Let_def)

lemma fold_update_length: "length (fold (\<lambda>p ds. ds[key p := val p]) ps init) = length init"
  by (induction ps arbitrary: init) auto

lemma fold_update_other:
  "\<forall>p \<in> set ps. key p \<noteq> j \<Longrightarrow> fold (\<lambda>p ds. ds[key p := val p]) ps init ! j = init ! j"
  by (induction ps arbitrary: init) auto

lemma fold_update_value:
  assumes "j < length init" "\<exists>p \<in> set ps. key p = j" "\<forall>p \<in> set ps. key p = j \<longrightarrow> val p = v"
  shows "fold (\<lambda>p ds. ds[key p := val p]) ps init ! j = v"
  using assms
proof (induction ps arbitrary: init)
  case Nil
  then show ?case by simp
next
  case (Cons q ps)
  show ?case
  proof (cases "\<exists>p \<in> set ps. key p = j")
    case True
    with Cons show ?thesis by simp
  next
    case False
    with Cons.prems have kq: "key q = j" "val q = v" by auto
    from False have "fold (\<lambda>p ds. ds[key p := val p]) ps (init[key q := val q]) ! j = init[key q := val q] ! j"
      by (intro fold_update_other) simp
    with kq Cons.prems(1) show ?thesis by simp
  qed
qed

lemma fold_update_all:
  assumes "\<forall>d \<in> set init. P d" "\<forall>p \<in> set ps. P (val p)"
  shows "\<forall>d \<in> set (fold (\<lambda>p ds. ds[key p := val p]) ps init). P d"
  using assms
proof (induction ps arbitrary: init)
  case Nil
  then show ?case by simp
next
  case (Cons q ps)
  have "\<forall>d \<in> set (init[key q := val q]). P d"
    using Cons.prems set_update_subset_insert[of init "key q" "val q"] by auto
  with Cons show ?case by simp
qed

lemma cellIndex_inj:
  "x < w \<Longrightarrow> x' < w \<Longrightarrow> cellIndex w (y', x') = cellIndex w (y, x) \<Longrightarrow> (y', x') = (y, x)"
proof -
  assume a: "x < w" "x' < w" "cellIndex w (y', x') = cellIndex w (y, x)"
  then have e: "y' * w + x' = y * w + x" by (simp add: cellIndex_def)
  from a have "(y' * w + x') div w = y'" "(y * w + x) div w = y" by simp_all
  with e have "y' = y" by simp
  with e show ?thesis by simp
qed

lemma cell_in_range: "x < w \<Longrightarrow> y < h \<Longrightarrow> y * w + x < w * (h::nat)"
proof -
  assume a: "x < w" "y < h"
  then have "y * w + x < y * w + w" by simp
  also have "\<dots> = (Suc y) * w" by simp
  also have "\<dots> \<le> h * w" using a by (intro mult_le_mono1) simp
  finally show ?thesis by (simp add: mult.commute)
qed

lemma compute_cell:
  assumes "points cl \<noteq> []" "x < w" "y < h"
  shows "distData (compute msk cl w h) ! (y * w + x) = cellDistance msk (points cl) w (y, x)"
proof -
  have "fold (\<lambda>p ds. ds[cellIndex w p := cellDistance msk (points cl) w p])
          (List.product [0..<h] [0..<w]) (replicate (w * h) (Finite 0)) ! (y * w + x)
        = cellDistance msk (points cl) w (y, x)"
  proof (rule fold_update_value)
    show "y * w + x < length (replicate (w * h) (Finite 0))"
      using assms cell_in_range by simp
    show "\<exists>p \<in> set (List.product [0..<h] [0..<w]). cellIndex w p = y * w + x"
      using assms by (intro bexI[of _ "(y, x)"]) (simp_all add: cellIndex_def)
    show "\<forall>p \<in> set (List.product [0..<h] [0..<w]). cellIndex w p = y * w + x \<longrightarrow>
            cellDistance msk (points cl) w p = cellDistance msk (points cl) w (y, x)"
    proof (intro ballI impI)
      fix p assume p: "p \<in> set (List.product [0..<h] [0..<w])" "cellIndex w p = y * w + x"
      obtain y' x' where yx: "p = (y', x')" by (cases p)
      with p have "x' < w" by simp
      moreover from p yx have "cellIndex w (y', x') = cellIndex w (y, x)" by (simp add: cellIndex_def)
      ultimately have "(y', x') = (y, x)" using assms cellIndex_inj by blast
      with yx show "cellDistance msk (points cl) w p = cellDistance msk (points cl) w (y, x)" by simp
    qed
  qed
  with assms show ?thesis by (simp add: compute_def compute_step)
qed

lemma compute_entries:
  "\<forall>d \<in> set (distData (compute msk cl w h)). \<exists>r\<ge>0. d = Finite r"
proof (cases "points cl = []")
  case True
  then show ?thesis by (auto simp: compute_def)
next
  case False
  have "\<forall>p \<in> set (List.product [0..<h] [0..<w]). \<exists>r\<ge>0. cellDistance msk (points cl) w p = Finite r"
    using False minDistance_finite by (auto simp: cellDistance_def)
  then have "\<forall>d \<in> set (fold (\<lambda>p ds. ds[cellIndex w p := cellDistance msk (points cl) w p])
          (List.product [0..<h] [0..<w]) (replicate (w * h) (Finite 0))). \<exists>r\<ge>0. d = Finite r"
    by (intro fold_update_all) auto
  with False show ?thesis by (simp add: compute_def compute_step)
qed

text \<open>
  C4. In the distance map of \<^verbatim>\<open>compute\<close> every entry is a finite number that is
  at least 0, the entry of a pixel that is a contact point is exactly 0, the entry
  of a pixel whose mask entry is 0 is 0, and an empty contact line gives the
  all-zero map.
\<close>

theorem compute_distance_map:
  "(\<forall>d \<in> set (distData (compute msk cl w h)). \<exists>r\<ge>0. d = Finite r) \<and>
   (\<forall>x y. x < w \<and> y < h \<and> (int x, int y) \<in> set (points cl) \<longrightarrow>
      distData (compute msk cl w h) ! (y * w + x) = Finite 0) \<and>
   (\<forall>x y. x < w \<and> y < h \<and> readU8 msk (y * w + x) = Some 0 \<longrightarrow>
      distData (compute msk cl w h) ! (y * w + x) = Finite 0) \<and>
   (points cl = [] \<longrightarrow> distData (compute msk cl w h) = replicate (w * h) (Finite 0))"
proof (intro conjI allI impI)
  show "\<forall>d \<in> set (distData (compute msk cl w h)). \<exists>r\<ge>0. d = Finite r"
    by (rule compute_entries)
next
  fix x y assume a: "x < w \<and> y < h \<and> (int x, int y) \<in> set (points cl)"
  then have "points cl \<noteq> []" by auto
  with a show "distData (compute msk cl w h) ! (y * w + x) = Finite 0"
    by (simp add: compute_cell cellDistance_def minDistance_contact)
next
  fix x y assume a: "x < w \<and> y < h \<and> readU8 msk (y * w + x) = Some 0"
  show "distData (compute msk cl w h) ! (y * w + x) = Finite 0"
  proof (cases "points cl = []")
    case True
    with a cell_in_range[of x w y h] show ?thesis by (simp add: compute_def)
  next
    case False
    with a show ?thesis by (simp add: compute_cell cellDistance_def)
  qed
next
  assume "points cl = []"
  then show "distData (compute msk cl w h) = replicate (w * h) (Finite 0)"
    by (simp add: compute_def)
qed

theorem compute_distance_map_witness:
  "(0::nat) < 2 \<and> (1::nat) < 2 \<and> (int 0, int 1) \<in> set (points \<lparr>points = [(0, 1)]\<rparr>) \<and>
   distData (compute [1, 0, 1, 0] \<lparr>points = [(0, 1)]\<rparr> 2 2) ! (1 * 2 + 0) = Finite 0 \<and>
   readU8 [1, 0, 1, 0] (0 * 2 + 1) = Some 0 \<and>
   distData (compute [1, 0, 1, 0] \<lparr>points = [(0, 1)]\<rparr> 2 2) ! (0 * 2 + 1) = Finite 0 \<and>
   distData (compute [1, 0, 1, 0] \<lparr>points = []\<rparr> 2 2) = replicate (2 * 2) (Finite 0)"
proof -
  note t = compute_distance_map[of "[1, 0, 1, 0]" "\<lparr>points = [(0, 1)]\<rparr>" 2 2]
  note e = compute_distance_map[of "[1, 0, 1, 0]" "\<lparr>points = []\<rparr>" 2 2]
  have a: "(0::nat) < 2 \<and> (1::nat) < 2 \<and> (int 0, int 1) \<in> set (points \<lparr>points = [(0, 1)]\<rparr>)"
    by simp
  have b: "(1::nat) < 2 \<and> (0::nat) < 2 \<and> readU8 [1, 0, 1, 0] (0 * 2 + 1) = Some 0"
    by (simp add: readU8_def)
  from t a have c: "distData (compute [1, 0, 1, 0] \<lparr>points = [(0, 1)]\<rparr> 2 2) ! (1 * 2 + 0) = Finite 0"
    by blast
  from t b have d: "distData (compute [1, 0, 1, 0] \<lparr>points = [(0, 1)]\<rparr> 2 2) ! (0 * 2 + 1) = Finite 0"
    by blast
  from e have f: "distData (compute [1, 0, 1, 0] \<lparr>points = []\<rparr> 2 2) = replicate (2 * 2) (Finite 0)"
    by simp
  from a b c d f show ?thesis by blast
qed

section \<open>ShadowCompositor.composite\<close>

lemma alphaBlend_transparent:
  "alphaBlend r g b a sr sg sb (Some 0) = (r, g, b, a)"
  by (simp add: alphaBlend_def ndiv_def num2_def)

lemma compositePixel_transparent_shadow:
  assumes "readU8 (data shadow) (i * 4 + 3) = Some 0"
  shows "compositePixel bg shadow fg i = overPixel bg fg i"
proof -
  have n: "nat (int (i * 4) + 3) = i * 4 + 3" by simp
  have l: "int (i * 4) + 3 < int (length (data shadow)) \<longleftrightarrow> i * 4 + 3 < length (data shadow)"
    by linarith
  from assms have "readNum (data shadow) (int (i * 4) + 3) = Some 0"
    unfolding readNum_def readU8_def n l by (simp split: if_splits)
  then show ?thesis
    by (simp add: fun_eq_iff compositePixel_def overPixel_def Let_def alphaBlend_transparent)
qed

text \<open>
  C6. When every pixel of the shadow layer (one per pixel of the background) has
  alpha 0, \<^verbatim>\<open>composite\<close> returns the image of the two-layer blend: at every pixel
  the Porter-Duff "over" blend of the foreground over the background.
\<close>

theorem composite_transparent_shadow:
  assumes "\<forall>i < width bg * height bg. readU8 (data shadow) (i * 4 + 3) = Some 0"
  shows "composite bg shadow fg = overBlend bg fg"
proof -
  have "fold (compositePixel bg shadow fg) [0..<width bg * height bg] init
        = fold (overPixel bg fg) [0..<width bg * height bg] init" for init
    using assms by (intro fold_cong) (simp_all add: compositePixel_transparent_shadow)
  then show ?thesis by (simp add: composite_def overBlend_def)
qed

theorem composite_transparent_shadow_witness:
  "readU8 (data \<lparr>width = 1, height = 1, data = [7, 7, 7, 0]\<rparr>) (0 * 4 + 3) = Some 0 \<and>
   composite \<lparr>width = 1, height = 1, data = [10, 20, 30, 255]\<rparr>
             \<lparr>width = 1, height = 1, data = [7, 7, 7, 0]\<rparr>
             \<lparr>width = 1, height = 1, data = [200, 100, 50, 255]\<rparr>
     = overBlend \<lparr>width = 1, height = 1, data = [10, 20, 30, 255]\<rparr>
                 \<lparr>width = 1, height = 1, data = [200, 100, 50, 255]\<rparr>"
  using composite_transparent_shadow[of "\<lparr>width = 1, height = 1, data = [10, 20, 30, 255]\<rparr>"
          "\<lparr>width = 1, height = 1, data = [7, 7, 7, 0]\<rparr>"
          "\<lparr>width = 1, height = 1, data = [200, 100, 50, 255]\<rparr>"]
  by (simp add: readU8_def)

text \<open>A half-transparent foreground pixel over an opaque background pixel.\<close>

lemma overBlend_example:
  "overBlend \<lparr>width = 1, height = 1, data = [10, 20, 30, 255]\<rparr>
                 \<lparr>width = 1, height = 1, data = [200, 100, 50, 128]\<rparr>
   = \<lparr>width = 1, height = 1, data = [105, 60, 40, 255]\<rparr>"
  apply (simp add: overBlend_def overPixel_def readNum_def alphaBlend_def ndiv_def nadd_def nmul_def nsub_def num2_def ngt_def nround_def Let_def storePixel_def)
  apply (simp add: jsRound_def toUint8Clamped_def roundHalfEven_def Let_def)
  apply (simp add: eval_nat_numeral)
  done

section \<open>ShadowGenerator.validateImages\<close>

text \<open>
  C9. \<^verbatim>\<open>validateImages\<close> throws exactly when the foreground or the background is
  absent. With both present it returns, whatever the dimensions of the three
  images: a mismatch only adds a warning.
\<close>

theorem validateImages_throws_iff:
  "(\<exists>e. validateImages images = Inl e) \<longleftrightarrow> (foreground images = None \<or> background images = None)"
  by (auto simp: validateImages_def Let_def split: option.splits)

theorem validateImages_throws_iff_witness:
  "validateImages \<lparr>foreground = Some \<lparr>width = 2, height = 2, data = replicate 16 0\<rparr>,
                    background = Some \<lparr>width = 3, height = 1, data = replicate 12 0\<rparr>,
                    depthMap = Some \<lparr>width = 1, height = 1, data = replicate 4 0\<rparr>\<rparr>
     = Inr [ImageDimensionMismatch 2 2 3 1, DepthMapDimensionMismatch 1 1 2 2] \<and>
   (\<exists>e. validateImages \<lparr>foreground = None,
                    background = Some \<lparr>width = 3, height = 1, data = replicate 12 0\<rparr>,
                    depthMap = None\<rparr> = Inl e)"
  using validateImages_throws_iff[of "\<lparr>foreground = None,
                    background = Some \<lparr>width = 3, height = 1, data = replicate 12 0\<rparr>,
                    depthMap = None\<rparr>"]
  by (simp add: validateImages_def)

section \<open>BlurEngine.gaussianBlurAtPixel\<close>

lemma blurSample_count_mono:
  "sampleCount acc \<le> sampleCount (blurSample img cx cy radius oy ox acc)"
  by (cases acc) (simp add: blurSample_def sampleCount_def Let_def)

lemma blurSample_centre:
  assumes "0 \<le> cx" "cx < int (width img)" "0 \<le> cy" "cy < int (height img)"
  shows "sampleCount (blurSample img cx cy radius 0 0 acc) = sampleCount acc + 1"
  using assms by (cases acc) (simp add: blurSample_def sampleCount_def Let_def)

lemma inner_count_mono:
  "sampleCount acc \<le> sampleCount (fold (\<lambda>ox acc'. blurSample img cx cy radius oy ox acc') xs acc)"
proof (induction xs arbitrary: acc)
  case Nil
  then show ?case by simp
next
  case (Cons x xs)
  have "sampleCount acc \<le> sampleCount (blurSample img cx cy radius oy x acc)"
    by (rule blurSample_count_mono)
  also have "\<dots> \<le> sampleCount (fold (\<lambda>ox acc'. blurSample img cx cy radius oy ox acc') xs
                                  (blurSample img cx cy radius oy x acc))"
    by (rule Cons.IH)
  finally show ?case by simp
qed

lemma inner_count_centre:
  assumes "0 \<le> cx" "cx < int (width img)" "0 \<le> cy" "cy < int (height img)" "0 \<in> set xs"
  shows "sampleCount acc + 1
           \<le> sampleCount (fold (\<lambda>ox acc'. blurSample img cx cy radius 0 ox acc') xs acc)"
  using assms(5)
proof (induction xs arbitrary: acc)
  case Nil
  then show ?case by simp
next
  case (Cons x xs)
  show ?case
  proof (cases "x = 0")
    case True
    have "sampleCount acc + 1 = sampleCount (blurSample img cx cy radius 0 0 acc)"
      using assms(1-4) by (simp add: blurSample_centre)
    also have "\<dots> \<le> sampleCount (fold (\<lambda>ox acc'. blurSample img cx cy radius 0 ox acc') xs
                                  (blurSample img cx cy radius 0 0 acc))"
      by (rule inner_count_mono)
    finally show ?thesis using True by simp
  next
    case False
    with Cons.prems have "0 \<in> set xs" by simp
    from Cons.IH[OF this, of "blurSample img cx cy radius 0 x acc"]
      blurSample_count_mono[of acc img cx cy radius 0 x]
    show ?thesis by simp
  qed
qed

lemma outer_count_mono:
  "sampleCount acc
     \<le> sampleCount (fold (\<lambda>oy acc. fold (\<lambda>ox acc'. blurSample img cx cy radius oy ox acc') xs acc) ys acc)"
proof (induction ys arbitrary: acc)
  case Nil
  then show ?case by simp
next
  case (Cons y ys)
  have "sampleCount acc \<le> sampleCount (fold (\<lambda>ox acc'. blurSample img cx cy radius y ox acc') xs acc)"
    by (rule inner_count_mono)
  also note Cons.IH[of "fold (\<lambda>ox acc'. blurSample img cx cy radius y ox acc') xs acc"]
  finally show ?case by simp
qed

lemma outer_count_centre:
  assumes "0 \<le> cx" "cx < int (width img)" "0 \<le> cy" "cy < int (height img)" "0 \<in> set xs" "0 \<in> set ys"
  shows "sampleCount acc + 1
     \<le> sampleCount (fold (\<lambda>oy acc. fold (\<lambda>ox acc'. blurSample img cx cy radius oy ox acc') xs acc) ys acc)"
  using assms(6)
proof (induction ys arbitrary: acc)
  case Nil
  then show ?case by simp
next
  case (Cons y ys)
  show ?case
  proof (cases "y = 0")
    case True
    have "sampleCount acc + 1
            \<le> sampleCount (fold (\<lambda>ox acc'. blurSample img cx cy radius 0 ox acc') xs acc)"
      using assms(1-5) by (rule inner_count_centre)
    also note outer_count_mono[of "fold (\<lambda>ox acc'. blurSample img cx cy radius 0 ox acc') xs acc"
        img cx cy radius xs ys]
    finally show ?thesis using True by simp
  next
    case False
    with Cons.prems have "0 \<in> set ys" by simp
    from Cons.IH[OF this, of "fold (\<lambda>ox acc'. blurSample img cx cy radius y ox acc') xs acc"]
      inner_count_mono[of acc img cx cy radius y xs]
    show ?thesis by simp
  qed
qed

lemma blurAccumulate_count:
  assumes "0 \<le> cx" "cx < int (width img)" "0 \<le> cy" "cy < int (height img)" "1 / 2 \<le> radius"
  shows "1 \<le> sampleCount (blurAccumulate img cx cy radius)"
proof -
  from assms(5) have "0 \<le> \<lceil>radius\<rceil>" by linarith
  then have z: "0 \<in> set [- \<lceil>radius\<rceil>..\<lceil>radius\<rceil>]" by simp
  from outer_count_centre[OF assms(1-4) z z, of "(Some 0, Some 0, Some 0, Some 0, 0)" radius]
  show ?thesis by (simp add: blurAccumulate_def Let_def sampleCount_def)
qed

text \<open>
  C10. For a centre pixel inside the image and a radius of at least 0.5 the two
  loops of \<^verbatim>\<open>gaussianBlurAtPixel\<close> count at least one sample, the centre itself,
  so the result is the clamped, rounded quotient of each sum by the count: the
  branch that skips the division is not taken.
\<close>

theorem blur_count_positive:
  assumes "0 \<le> cx" "cx < int (width img)" "0 \<le> cy" "cy < int (height img)" "1 / 2 \<le> radius"
  shows "1 \<le> sampleCount (blurAccumulate img cx cy radius) \<and>
         gaussianBlurAtPixel img cx cy radius =
           (case blurAccumulate img cx cy radius of (r, g, b, a, count) \<Rightarrow>
              (clamp (nround (ndiv r (Some (real count)))) 0 255,
               clamp (nround (ndiv g (Some (real count)))) 0 255,
               clamp (nround (ndiv b (Some (real count)))) 0 255,
               clamp (nround (ndiv a (Some (real count)))) 0 255))"
proof -
  have c: "1 \<le> sampleCount (blurAccumulate img cx cy radius)"
    using assms by (rule blurAccumulate_count)
  obtain r g b a count where acc: "blurAccumulate img cx cy radius = (r, g, b, a, count)"
    by (metis prod.collapse)
  with c have "0 < count" by (simp add: sampleCount_def)
  with assms(5) acc have "gaussianBlurAtPixel img cx cy radius =
           (clamp (nround (ndiv r (Some (real count)))) 0 255,
            clamp (nround (ndiv g (Some (real count)))) 0 255,
            clamp (nround (ndiv b (Some (real count)))) 0 255,
            clamp (nround (ndiv a (Some (real count)))) 0 255)"
    by (simp add: gaussianBlurAtPixel_def Let_def)
  with c acc show ?thesis by simp
qed

theorem blur_count_positive_witness:
  "(0::int) \<le> 0 \<and> (0::int) < int (width \<lparr>width = 1, height = 1, data = [1, 2, 3, 4]\<rparr>) \<and>
   (0::int) < int (height \<lparr>width = 1, height = 1, data = [1, 2, 3, 4]\<rparr>) \<and> (1 / 2 :: real) \<le> 1 / 2 \<and>
   1 \<le> sampleCount (blurAccumulate \<lparr>width = 1, height = 1, data = [1, 2, 3, 4]\<rparr> 0 0 (1 / 2))"
  using blur_count_positive[of 0 "\<lparr>width = 1, height = 1, data = [1, 2, 3, 4]\<rparr>" 0 "1 / 2"]
  by simp

section \<open>ShadowProjector: the shadow of a single pixel\<close>

lemma markPixel_length: "length (markPixel b w h x y) = length b"
  by (simp add: markPixel_def)

lemma markPixel_nth:
  "i < length b \<Longrightarrow> markPixel b w h x y ! i =
     (if 0 \<le> x \<and> x < int w \<and> 0 \<le> y \<and> y < int h \<and> i = nat (y * int w + x) then 1 else b ! i)"
  by (auto simp: markPixel_def nth_list_update)

lemma onRow_single:
  "onRow w h x x y i \<longleftrightarrow> (0 \<le> x \<and> x < int w \<and> 0 \<le> y \<and> y < int h \<and> i = nat (y * int w + x))"
  by (auto simp: onRow_def)

lemma onRow_step:
  assumes "endX < x"
  shows "onRow w h endX x y i \<longleftrightarrow>
     onRow w h endX (x - 1) y i \<or> (0 \<le> x \<and> x < int w \<and> 0 \<le> y \<and> y < int h \<and> i = nat (y * int w + x))"
proof
  assume "onRow w h endX x y i"
  then obtain x' where x': "endX \<le> x'" "x' \<le> x" "0 \<le> x'" "x' < int w" "0 \<le> y" "y < int h"
      "i = nat (y * int w + x')"
    unfolding onRow_def by blast
  show "onRow w h endX (x - 1) y i \<or> (0 \<le> x \<and> x < int w \<and> 0 \<le> y \<and> y < int h \<and> i = nat (y * int w + x))"
  proof (cases "x' = x")
    case True
    with x' show ?thesis by simp
  next
    case False
    with x' have "x' \<le> x - 1" by simp
    with x' have "onRow w h endX (x - 1) y i" unfolding onRow_def by blast
    then show ?thesis ..
  qed
next
  assume "onRow w h endX (x - 1) y i \<or> (0 \<le> x \<and> x < int w \<and> 0 \<le> y \<and> y < int h \<and> i = nat (y * int w + x))"
  then show "onRow w h endX x y i"
  proof
    assume "onRow w h endX (x - 1) y i"
    then obtain x' where x': "endX \<le> x'" "x' \<le> x - 1" "0 \<le> x'" "x' < int w" "0 \<le> y" "y < int h"
      "i = nat (y * int w + x')"
      unfolding onRow_def by blast
    then have "x' \<le> x" by simp
    with x' show ?thesis unfolding onRow_def by blast
  next
    assume "0 \<le> x \<and> x < int w \<and> 0 \<le> y \<and> y < int h \<and> i = nat (y * int w + x)"
    with assms show ?thesis unfolding onRow_def by (intro exI[of _ x]) simp
  qed
qed

lemma drawLoop_horizontal_left:
  assumes "0 < adx"
  shows "endX \<le> x \<Longrightarrow>
     \<exists>r. drawLoop ((w, h, adx, 0, - 1, sy, endX, y), (buffer, adx, x, y)) = Some r \<and>
         length r = length buffer \<and>
         (\<forall>i < length buffer. r ! i = (if onRow w h endX x y i then 1 else buffer ! i))"
proof (induction "nat (x - endX)" arbitrary: x buffer)
  case 0
  then have e: "x = endX" by simp
  have "drawLoop ((w, h, adx, 0, - 1, sy, endX, y), (buffer, adx, x, y)) = Some (markPixel buffer w h x y)"
    by (subst drawLoop.simps) (simp add: e)
  then show ?case
    using e by (simp add: markPixel_length markPixel_nth onRow_single)
next
  case (Suc n)
  then have lt: "endX < x" and n: "n = nat (x - 1 - endX)" and le: "endX \<le> x - 1" by simp_all
  have step: "drawLoop ((w, h, adx, 0, - 1, sy, endX, y), (buffer, adx, x, y))
      = drawLoop ((w, h, adx, 0, - 1, sy, endX, y), (markPixel buffer w h x y, adx, x - 1, y))"
    using lt assms by (subst drawLoop.simps) (simp add: lineStep_def Let_def)
  from Suc.hyps(1)[OF n le, of "markPixel buffer w h x y"]
  obtain r where r: "drawLoop ((w, h, adx, 0, - 1, sy, endX, y), (markPixel buffer w h x y, adx, x - 1, y)) = Some r"
     "length r = length buffer"
     "\<forall>i < length buffer. r ! i = (if onRow w h endX (x - 1) y i then 1 else markPixel buffer w h x y ! i)"
    by (auto simp: markPixel_length)
  have "\<forall>i < length buffer. r ! i = (if onRow w h endX x y i then 1 else buffer ! i)"
    using r(3) by (auto simp: onRow_step[OF lt] markPixel_nth)
  with r step show ?case by simp
qed

lemma drawLine_horizontal_left:
  assumes "0 < a"
  shows "\<exists>r. drawLine buffer w h (real px) (real py) (real px - a) (real py) = Some r \<and>
         length r = length buffer \<and>
         (\<forall>i < length buffer. r ! i = (if onRow w h (jsRound (real px - a)) (int px) (int py) i then 1 else buffer ! i))"
proof -
  have rx: "jsRound (real px) = int px" and ry: "jsRound (real py) = int py"
    by (simp_all add: jsRound_def)
  have le: "jsRound (real px - a) \<le> int px"
    using assms unfolding jsRound_def by linarith
  have "drawLine buffer w h (real px) (real py) (real px - a) (real py)
        = drawLoop ((w, h, a, 0, - 1, - 1, jsRound (real px - a), int py), (buffer, a, int px, int py))"
    using assms by (simp add: drawLine_def rx ry Let_def)
  with drawLoop_horizontal_left[OF assms le, of w h "- 1" "int py" buffer] show ?thesis by simp
qed

lemma foldOpt_skip:
  "\<forall>e \<in> set es. \<forall>s. f e s = Some s \<Longrightarrow> foldOpt f es s = Some s"
  by (induction es) auto

lemma foldOpt_append:
  "foldOpt f (as @ bs) s = (case foldOpt f as s of None \<Rightarrow> None | Some s' \<Rightarrow> foldOpt f bs s')"
  by (induction as arbitrary: s) (auto split: option.splits)

lemma foldOpt_single:
  assumes "e0 \<in> set es" "distinct es" "\<forall>e \<in> set es. e \<noteq> e0 \<longrightarrow> (\<forall>s. f e s = Some s)"
  shows "foldOpt f es s = f e0 s"
proof -
  from assms(1) obtain as bs where es: "es = as @ e0 # bs" by (auto dest: split_list)
  with assms(2) have "e0 \<notin> set as" "e0 \<notin> set bs" by auto
  with assms(3) es have sa: "\<forall>e \<in> set as. \<forall>s. f e s = Some s" and sb: "\<forall>e \<in> set bs. \<forall>s. f e s = Some s"
    by auto
  show ?thesis
    by (cases "f e0 s") (simp_all add: es foldOpt_append foldOpt_skip[OF sa] foldOpt_skip[OF sb])
qed

lemma singlePixel_read:
  assumes "x < w" "y < h" "px < w"
  shows "readU8 (singlePixel w h px py) (y * w + x) = Some (if (y, x) = (py, px) then 1 else 0)"
proof -
  have r: "y * w + x < w * h" using assms cell_in_range by simp
  have e: "(y * w + x = py * w + px) = ((y, x) = (py, px))"
    using cellIndex_inj[of px w x y py] assms by (auto simp: cellIndex_def)
  show ?thesis
  proof (cases "(y, x) = (py, px)")
    case True
    with r show ?thesis by (simp add: readU8_def singlePixel_def)
  next
    case False
    with e have "py * w + px \<noteq> y * w + x" by auto
    with r False show ?thesis by (simp add: readU8_def singlePixel_def)
  qed
qed

lemma project_singlePixel:
  assumes "px < w" "py < h"
  shows "project (singlePixel w h px py) w h lv maxD None
         = drawLine (replicate (w * h) 0) w h (real px) (real py)
             (real px - dx lv * maxD * 1) (real py - dy lv * maxD * 1)"
proof -
  have "foldOpt (projectPixel (singlePixel w h px py) w h lv maxD None)
          (List.product [0..<h] [0..<w]) (replicate (w * h) 0)
        = projectPixel (singlePixel w h px py) w h lv maxD None (py, px) (replicate (w * h) 0)"
  proof (rule foldOpt_single)
    show "(py, px) \<in> set (List.product [0..<h] [0..<w])" using assms by simp
    show "distinct (List.product [0..<h] [0..<w])" by (simp add: distinct_product)
    show "\<forall>e \<in> set (List.product [0..<h] [0..<w]). e \<noteq> (py, px) \<longrightarrow>
            (\<forall>s. projectPixel (singlePixel w h px py) w h lv maxD None e s = Some s)"
      using assms by (auto simp: projectPixel_def singlePixel_read)
  qed
  also have "\<dots> = drawLine (replicate (w * h) 0) w h (real px) (real py)
             (real px - dx lv * maxD * 1) (real py - dy lv * maxD * 1)"
    using assms by (simp add: projectPixel_def singlePixel_read warpFactor_def)
  finally show ?thesis by (simp add: project_def)
qed

text \<open>
  With the light along the positive \<open>x\<close> axis the line of the single opaque pixel
  \<open>(px, py)\<close> runs to the left along its row, and after the occlusion removal the
  shadow is the part of that row from the rounded end point up to, and without,
  the pixel itself. The lemma needs only the sign of \<open>dx * maxDistance\<close> and that
  \<open>dy * maxDistance\<close> is 0, so it does not depend on how the product is rounded.
\<close>

lemma shadow_of_single_pixel:
  assumes "px < w" "py < h" "0 < dx lv * maxD" "dy lv * maxD = 0"
  shows "\<exists>sm. project (singlePixel w h px py) w h lv maxD None = Some sm \<and>
          (\<forall>x y. x < w \<and> y < h \<longrightarrow>
             (removeOcclusions sm (singlePixel w h px py) w h ! (y * w + x) = 1)
               = (y = py \<and> x < px \<and> jsRound (real px - dx lv * maxD) \<le> int x))"
proof -
  from drawLine_horizontal_left[OF assms(3), of "replicate (w * h) 0" w h px py]
  obtain sm where sm: "drawLine (replicate (w * h) 0) w h (real px) (real py) (real px - dx lv * maxD) (real py) = Some sm"
     "length sm = w * h"
     "\<forall>i < w * h. sm ! i = (if onRow w h (jsRound (real px - dx lv * maxD)) (int px) (int py) i then 1 else 0)"
    by auto
  have e1: "real px - dx lv * maxD * 1 = real px - dx lv * maxD" by simp
  have e2: "real py - dy lv * maxD * 1 = real py" by (simp only: mult_1_right assms(4) diff_zero)
  have p: "project (singlePixel w h px py) w h lv maxD None = Some sm"
    unfolding project_singlePixel[OF assms(1,2)] e1 e2 by (rule sm(1))
  have "(removeOcclusions sm (singlePixel w h px py) w h ! (y * w + x) = 1)
               = (y = py \<and> x < px \<and> jsRound (real px - dx lv * maxD) \<le> int x)"
    if xy: "x < w \<and> y < h" for x y
  proof -
    have r: "y * w + x < w * h" using xy cell_in_range by simp
    have on: "onRow w h (jsRound (real px - dx lv * maxD)) (int px) (int py) (y * w + x)
          \<longleftrightarrow> (y = py \<and> jsRound (real px - dx lv * maxD) \<le> int x \<and> x \<le> px)"
    proof
      assume "onRow w h (jsRound (real px - dx lv * maxD)) (int px) (int py) (y * w + x)"
      then obtain x' where x': "jsRound (real px - dx lv * maxD) \<le> x'" "x' \<le> int px" "0 \<le> x'" "x' < int w"
         "y * w + x = nat (int py * int w + x')"
        unfolding onRow_def by blast
      then have "y * w + x = py * w + nat x'" by (simp add: nat_add_distrib nat_mult_distrib)
      moreover have "nat x' < w" using x' by simp
      ultimately have "(y, x) = (py, nat x')"
        using cellIndex_inj[of "nat x'" w x y py] xy by (simp add: cellIndex_def)
      with x' show "y = py \<and> jsRound (real px - dx lv * maxD) \<le> int x \<and> x \<le> px" by auto
    next
      assume a: "y = py \<and> jsRound (real px - dx lv * maxD) \<le> int x \<and> x \<le> px"
      show "onRow w h (jsRound (real px - dx lv * maxD)) (int px) (int py) (y * w + x)"
        unfolding onRow_def using a xy assms
        by (intro exI[of _ "int x"]) (simp add: nat_add_distrib nat_mult_distrib)
    qed
    have "removeOcclusions sm (singlePixel w h px py) w h ! (y * w + x)
          = (if sm ! (y * w + x) = 1 \<and> (y, x) \<noteq> (py, px) then 1 else 0)"
      using r xy assms sm(2) by (simp add: removeOcclusions_nth singlePixel_read) (simp add: readU8_def)
    then have ro: "(removeOcclusions sm (singlePixel w h px py) w h ! (y * w + x) = 1)
          = (sm ! (y * w + x) = 1 \<and> (y, x) \<noteq> (py, px))"
      by simp
    from sm(3) r have "sm ! (y * w + x)
          = (if onRow w h (jsRound (real px - dx lv * maxD)) (int px) (int py) (y * w + x) then 1 else 0)"
      by blast
    then have "(sm ! (y * w + x) = 1)
          = (y = py \<and> jsRound (real px - dx lv * maxD) \<le> int x \<and> x \<le> px)"
      unfolding on by simp
    with ro show ?thesis by auto
  qed
  with p show ?thesis by blast
qed

lemma light_0_45:
  "dx (calculate 0 45) * (getShadowLengthMultiplier 45 * 150) = 150"
  "dy (calculate 0 45) * (getShadowLengthMultiplier 45 * 150) = 0"
proof -
  have d: "degreesToRadians 45 = pi / 4" by (simp add: degreesToRadians_def)
  have "1 \<le> sqrt 2" by simp
  then have "1 / 10 \<le> sqrt 2 / 2" by linarith
  then have m: "max (1 / 10) (sqrt 2 / 2) = sqrt 2 / 2"
    by (rule max_absorb2)
  show "dx (calculate 0 45) * (getShadowLengthMultiplier 45 * 150) = 150"
    by (simp add: calculate_def getShadowLengthMultiplier_def d degreesToRadians_def cos_45 sin_45 m Let_def)
  show "dy (calculate 0 45) * (getShadowLengthMultiplier 45 * 150) = 0"
    by (simp add: calculate_def degreesToRadians_def Let_def)
qed

text \<open>
  C7. Light angle 0 and elevation 45 degrees, the 200 x 200 mask whose only opaque
  pixel is \<open>(50, 50)\<close>, the light vector of \<^verbatim>\<open>calculate\<close> and the shadow length
  \<^verbatim>\<open>getShadowLengthMultiplier(45) * 150\<close>: \<^verbatim>\<open>project\<close> returns, and after
  \<^verbatim>\<open>removeOcclusions\<close> the shadow pixels are exactly those of row 50 with
  \<open>x < 50\<close>; none has \<open>x \<ge> 50\<close>.
\<close>

theorem shadow_direction:
  "\<exists>sm. project (singlePixel 200 200 50 50) 200 200 (calculate 0 45)
           (getShadowLengthMultiplier 45 * 150) None = Some sm \<and>
        (\<forall>x y. x < 200 \<and> y < 200 \<longrightarrow>
           (removeOcclusions sm (singlePixel 200 200 50 50) 200 200 ! (y * 200 + x) = 1)
             = (y = 50 \<and> x < 50))"
proof -
  have r: "jsRound (real 50 - dx (calculate 0 45) * (getShadowLengthMultiplier 45 * 150)) = - 100"
    by (simp add: light_0_45 jsRound_def)
  from shadow_of_single_pixel[of 50 200 50 200 "calculate 0 45" "getShadowLengthMultiplier 45 * 150"]
  show ?thesis unfolding r by (simp add: light_0_45)
qed

theorem shadow_direction_witness:
  "\<exists>sm. project (singlePixel 200 200 50 50) 200 200 (calculate 0 45)
           (getShadowLengthMultiplier 45 * 150) None = Some sm \<and>
        (10::nat) < 200 \<and> (50::nat) < 200 \<and> (60::nat) < 200 \<and>
        removeOcclusions sm (singlePixel 200 200 50 50) 200 200 ! (50 * 200 + 10) = 1 \<and>
        removeOcclusions sm (singlePixel 200 200 50 50) 200 200 ! (50 * 200 + 60) \<noteq> 1"
proof -
  from shadow_direction obtain sm where
    sm: "project (singlePixel 200 200 50 50) 200 200 (calculate 0 45)
           (getShadowLengthMultiplier 45 * 150) None = Some sm"
    and c: "\<forall>x y. x < 200 \<and> y < 200 \<longrightarrow>
           (removeOcclusions sm (singlePixel 200 200 50 50) 200 200 ! (y * 200 + x) = 1)
             = (y = 50 \<and> x < 50)"
    by blast
  from c[rule_format, of 10 50] have "removeOcclusions sm (singlePixel 200 200 50 50) 200 200 ! (50 * 200 + 10) = 1"
    by simp
  moreover from c[rule_format, of 60 50] have "removeOcclusions sm (singlePixel 200 200 50 50) 200 200 ! (50 * 200 + 60) \<noteq> 1"
    by simp
  ultimately show ?thesis using sm by simp
qed

section \<open>ShadowGenerator.generate: the buffers it writes\<close>

lemma modU8_refl: "modifiesOnlyU8 a hp hp"
  by (simp add: modifiesOnlyU8_def)

lemma modU8_trans:
  "modifiesOnlyU8 a h1 h2 \<Longrightarrow> modifiesOnlyU8 a h2 h3 \<Longrightarrow> modifiesOnlyU8 a h1 h3"
  by (simp add: modifiesOnlyU8_def)

lemma modF32_refl: "modifiesOnlyF32 a hp hp"
  by (simp add: modifiesOnlyF32_def)

lemma modF32_trans:
  "modifiesOnlyF32 a h1 h2 \<Longrightarrow> modifiesOnlyF32 a h2 h3 \<Longrightarrow> modifiesOnlyF32 a h1 h3"
  by (simp add: modifiesOnlyF32_def)

lemma storeU8_mod: "modifiesOnlyU8 a hp (storeU8 hp a i v)"
  by (simp add: modifiesOnlyU8_def storeU8_def)

lemma storeF32_mod: "modifiesOnlyF32 a hp (storeF32 hp a i v)"
  by (simp add: modifiesOnlyF32_def storeF32_def)

lemma storePixelH_mod: "modifiesOnlyU8 a hp (storePixelH hp a i c)"
proof -
  obtain r g b al where c: "c = (r, g, b, al)" by (cases c)
  show ?thesis
    unfolding storePixelH_def c prod.case
    by (intro modU8_trans[OF _ storeU8_mod] storeU8_mod)
qed

lemma fold_modU8:
  assumes "\<And>e s. modifiesOnlyU8 a s (f e s)"
  shows "modifiesOnlyU8 a s (fold f es s)"
proof (induction es arbitrary: s)
  case Nil
  show ?case by (simp add: modU8_refl)
next
  case (Cons e es)
  from modU8_trans[OF assms Cons.IH] show ?case by simp
qed

lemma fold_modF32:
  assumes "\<And>e s. modifiesOnlyF32 a s (f e s)"
  shows "modifiesOnlyF32 a s (fold f es s)"
proof (induction es arbitrary: s)
  case Nil
  show ?case by (simp add: modF32_refl)
next
  case (Cons e es)
  from modF32_trans[OF assms Cons.IH] show ?case by simp
qed

lemma foldOpt_modU8:
  assumes "\<And>e s s'. f e s = Some s' \<Longrightarrow> modifiesOnlyU8 a s s'"
  shows "foldOpt f es s = Some s' \<Longrightarrow> modifiesOnlyU8 a s s'"
proof (induction es arbitrary: s)
  case Nil
  then show ?case by (simp add: modU8_refl)
next
  case (Cons e es)
  then obtain s1 where s1: "f e s = Some s1" "foldOpt f es s1 = Some s'"
    by (auto split: option.splits)
  from modU8_trans[OF assms[OF s1(1)] Cons.IH[OF s1(2)]] show ?case .
qed

lemma extends_refl: "extendsHeap hp hp"
  by (simp add: extendsHeap_def)

lemma take_take_prefix:
  assumes "take (length xs) ys = xs" "take (length ys) zs = ys"
  shows "take (length xs) zs = xs"
proof -
  from assms(1) have "length (take (length xs) ys) = length xs" by simp
  then have "length xs \<le> length ys" by simp
  then have "take (length xs) zs = take (length xs) (take (length ys) zs)"
    by (simp add: min_def)
  with assms show ?thesis by simp
qed

lemma extends_trans:
  "extendsHeap h1 h2 \<Longrightarrow> extendsHeap h2 h3 \<Longrightarrow> extendsHeap h1 h3"
  unfolding extendsHeap_def by (blast intro: take_take_prefix)

lemma allocU8_extends:
  assumes "allocU8 hp n = (a, hp1)" "modifiesOnlyU8 a hp1 hp2"
  shows "extendsHeap hp hp2"
proof -
  from assms(1) have a: "a = length (u8 hp)" and u: "u8 hp1 = u8 hp @ [replicate n 0]"
    and f: "f32 hp1 = f32 hp"
    by (auto simp: allocU8_def)
  from assms(2) have l: "length (u8 hp2) = Suc (length (u8 hp))"
    and s: "\<forall>b < Suc (length (u8 hp)). b \<noteq> a \<longrightarrow> u8 hp2 ! b = u8 hp1 ! b"
    and f2: "f32 hp2 = f32 hp1"
    by (simp_all add: modifiesOnlyU8_def u)
  have "take (length (u8 hp)) (u8 hp2) = u8 hp"
  proof (rule nth_equalityI)
    show "length (take (length (u8 hp)) (u8 hp2)) = length (u8 hp)" using l by simp
  next
    fix i assume "i < length (take (length (u8 hp)) (u8 hp2))"
    then have i: "i < length (u8 hp)" by simp
    with s a have "u8 hp2 ! i = u8 hp1 ! i" by simp
    with i u show "take (length (u8 hp)) (u8 hp2) ! i = u8 hp ! i" by (simp add: nth_append)
  qed
  with f f2 show ?thesis by (simp add: extendsHeap_def)
qed

lemma allocF32_extends:
  assumes "allocF32 hp n = (a, hp1)" "modifiesOnlyF32 a hp1 hp2"
  shows "extendsHeap hp hp2"
proof -
  from assms(1) have a: "a = length (f32 hp)" and u: "f32 hp1 = f32 hp @ [replicate n (Finite 0)]"
    and f: "u8 hp1 = u8 hp"
    by (auto simp: allocF32_def)
  from assms(2) have l: "length (f32 hp2) = Suc (length (f32 hp))"
    and s: "\<forall>b < Suc (length (f32 hp)). b \<noteq> a \<longrightarrow> f32 hp2 ! b = f32 hp1 ! b"
    and f2: "u8 hp2 = u8 hp1"
    by (simp_all add: modifiesOnlyF32_def u)
  have "take (length (f32 hp)) (f32 hp2) = f32 hp"
  proof (rule nth_equalityI)
    show "length (take (length (f32 hp)) (f32 hp2)) = length (f32 hp)" using l by simp
  next
    fix i assume "i < length (take (length (f32 hp)) (f32 hp2))"
    then have i: "i < length (f32 hp)" by simp
    with s a have "f32 hp2 ! i = f32 hp1 ! i" by simp
    with i u show "take (length (f32 hp)) (f32 hp2) ! i = f32 hp ! i" by (simp add: nth_append)
  qed
  with f f2 show ?thesis by (simp add: extendsHeap_def)
qed

lemma newImageData_extends:
  assumes "newImageData hp w h = (r, hp1)" "modifiesOnlyU8 (refData r) hp1 hp2"
  shows "extendsHeap hp hp2"
proof -
  from assms(1) have "allocU8 hp (4 * w * h) = (refData r, hp1)"
    by (auto simp: newImageData_def split: prod.splits)
  from allocU8_extends[OF this assms(2)] show ?thesis .
qed

lemma extractH_extends: "extractH hp img t = (a, hp') \<Longrightarrow> extendsHeap hp hp'"
  unfolding extractH_def Let_def
  by (auto split: prod.splits elim!: allocU8_extends intro!: fold_modU8 storeU8_mod)

lemma computeH_extends: "computeH hp msk cl w h = (d, hp') \<Longrightarrow> extendsHeap hp hp'"
  unfolding computeH_def Let_def
  by (auto split: prod.splits if_splits elim!: allocF32_extends
           intro!: fold_modF32 storeF32_mod modF32_refl)

lemma markPixelH_mod: "modifiesOnlyU8 a hp (markPixelH hp a w h x y)"
  by (simp add: markPixelH_def storeU8_mod modU8_refl)

lemma drawLoopH_mod:
  assumes "drawLoopH cs = Some hp'"
  shows "modifiesOnlyU8 (loopBuffer cs) (loopHeap cs) hp'"
proof (rule drawLoopH.raw_induct[where P = "\<lambda>cs hp'. modifiesOnlyU8 (loopBuffer cs) (loopHeap cs) hp'", OF _ assms])
  fix f cs hp'
  assume IH: "\<And>cs' r. f cs' = Some r \<Longrightarrow> modifiesOnlyU8 (loopBuffer cs') (loopHeap cs') r"
    and eq: "(case cs of
               ((w, h, adx, ady, sx, sy, endX, endY), (hp, buffer), err, x, y) \<Rightarrow>
                 let hp' = markPixelH hp buffer w h x y
                 in if x = endX \<and> y = endY then Some hp'
                    else f ((w, h, adx, ady, sx, sy, endX, endY),
                           lineStep (w, h, adx, ady, sx, sy, endX, endY) ((hp', buffer), err, x, y))) = Some hp'"
  obtain w h adx ady sx sy endX endY hp buffer err x y
    where cs: "cs = ((w, h, adx, ady, sx, sy, endX, endY), ((hp, buffer), err, x, y))"
    by (metis prod.collapse)
  have m: "modifiesOnlyU8 buffer hp (markPixelH hp buffer w h x y)" by (rule markPixelH_mod)
  show "modifiesOnlyU8 (loopBuffer cs) (loopHeap cs) hp'"
  proof (cases "x = endX \<and> y = endY")
    case True
    with eq cs have "hp' = markPixelH hp buffer w h x y" by (simp add: Let_def)
    with m cs show ?thesis by (simp add: loopBuffer_def loopHeap_def)
  next
    case False
    with eq cs have "f ((w, h, adx, ady, sx, sy, endX, endY),
        lineStep (w, h, adx, ady, sx, sy, endX, endY) ((markPixelH hp buffer w h x y, buffer), err, x, y)) = Some hp'"
      by (simp add: Let_def)
    from IH[OF this] have "modifiesOnlyU8 buffer (markPixelH hp buffer w h x y) hp'"
      by (simp add: loopBuffer_def loopHeap_def lineStep_def Let_def)
    from modU8_trans[OF m this] cs show ?thesis by (simp add: loopBuffer_def loopHeap_def)
  qed
qed

lemma drawLineH_mod: "drawLineH hp a w h x0 y0 x1 y1 = Some hp' \<Longrightarrow> modifiesOnlyU8 a hp hp'"
  unfolding drawLineH_def Let_def
  by (drule drawLoopH_mod) (simp add: loopBuffer_def loopHeap_def)

lemma projectPixelH_mod:
  "projectPixelH msk w h lv maxD dm a p hp = Some hp' \<Longrightarrow> modifiesOnlyU8 a hp hp'"
  unfolding projectPixelH_def Let_def
  by (auto split: prod.splits if_splits option.splits intro: modU8_refl drawLineH_mod)

lemma projectH_extends:
  assumes "projectH hp msk w h lv maxD dm = Some (a, hp')"
  shows "extendsHeap hp hp'"
proof -
  obtain a1 hp1 where al: "allocU8 hp (w * h) = (a1, hp1)" by (cases "allocU8 hp (w * h)")
  with assms have "foldOpt (projectPixelH msk w h lv maxD dm a1) (List.product [0..<h] [0..<w]) hp1 = Some hp'"
    by (auto simp: projectH_def)
  then have "modifiesOnlyU8 a1 hp1 hp'"
    by (rule foldOpt_modU8[rotated]) (rule projectPixelH_mod)
  with al show ?thesis by (rule allocU8_extends)
qed

lemma removeOcclusionsH_extends:
  "removeOcclusionsH hp s m w h = (a, hp') \<Longrightarrow> extendsHeap hp hp'"
  unfolding removeOcclusionsH_def
  by (auto split: prod.splits elim!: allocU8_extends intro!: fold_modU8 storeU8_mod modU8_refl)

lemma createShadowLayerH_extends:
  "createShadowLayerH m hp s d config w h = (r, hp') \<Longrightarrow> extendsHeap hp hp'"
  unfolding createShadowLayerH_def Let_def
  by (auto split: prod.splits elim!: newImageData_extends intro!: fold_modU8 storePixelH_mod)

lemma applyDistanceWeightedBlurH_extends:
  "applyDistanceWeightedBlurH m hp s d minBlur maxBlur maxD = (r, hp') \<Longrightarrow> extendsHeap hp hp'"
  unfolding applyDistanceWeightedBlurH_def Let_def
  by (auto split: prod.splits elim!: newImageData_extends intro!: fold_modU8 storePixelH_mod)

lemma maskToImageDataH_extends:
  "maskToImageDataH hp msk w h = (r, hp') \<Longrightarrow> extendsHeap hp hp'"
  unfolding maskToImageDataH_def Let_def
  by (auto split: prod.splits elim!: newImageData_extends intro!: fold_modU8 storePixelH_mod)

lemma compositeH_extends:
  "compositeH hp bg s fg = (r, hp') \<Longrightarrow> extendsHeap hp hp'"
  unfolding compositeH_def compositePixelH_def Let_def
  by (auto split: prod.splits elim!: newImageData_extends intro!: fold_modU8 storePixelH_mod)

lemma generateH_extends:
  assumes "generateH m hp images config = Some (res, hp')"
  shows "extendsHeap hp hp'"
proof -
  let ?w = "refWidth (foregroundRef images)" and ?h = "refHeight (foregroundRef images)"
  obtain silhouette hp1 where s1: "extractH hp (foregroundRef images) 10 = (silhouette, hp1)"
    by (cases "extractH hp (foregroundRef images) 10")
  obtain distanceMap hp2 where s2:
    "computeH hp1 silhouette (detect (bufU8 hp1 silhouette) ?w ?h) ?w ?h = (distanceMap, hp2)"
    by (cases "computeH hp1 silhouette (detect (bufU8 hp1 silhouette) ?w ?h) ?w ?h")
  let ?p = "projectH hp2 silhouette ?w ?h (calculate (lightAngle config) (lightElevation config))
              (getShadowLengthMultiplier (lightElevation config) * maxShadowDistance config)
              (depthMapRef images)"
  from assms s1 s2 obtain projected hp3 where s3: "?p = Some (projected, hp3)"
    by (cases ?p) (auto simp: generateH_def Let_def)
  obtain shadowMask hp4 where s4: "removeOcclusionsH hp3 projected silhouette ?w ?h = (shadowMask, hp4)"
    by (cases "removeOcclusionsH hp3 projected silhouette ?w ?h")
  obtain layer0 hp5 where s5: "createShadowLayerH m hp4 shadowMask distanceMap config ?w ?h = (layer0, hp5)"
    by (cases "createShadowLayerH m hp4 shadowMask distanceMap config ?w ?h")
  obtain layer hp6 where s6: "applyDistanceWeightedBlurH m hp5 layer0 distanceMap
      (minBlurRadius config) (maxBlurRadius config) (maxShadowDistance config) = (layer, hp6)"
    by (cases "applyDistanceWeightedBlurH m hp5 layer0 distanceMap
      (minBlurRadius config) (maxBlurRadius config) (maxShadowDistance config)")
  obtain maskDebug hp7 where s7: "maskToImageDataH hp6 silhouette ?w ?h = (maskDebug, hp7)"
    by (cases "maskToImageDataH hp6 silhouette ?w ?h")
  obtain comp hp8 where s8: "compositeH hp7 (backgroundRef images) layer (foregroundRef images) = (comp, hp8)"
    by (cases "compositeH hp7 (backgroundRef images) layer (foregroundRef images)")
  from assms s1 s2 s3 s4 s5 s6 s7 s8 have "hp' = hp8"
    by (simp add: generateH_def Let_def)
  moreover have "extendsHeap hp hp8"
    using extractH_extends[OF s1] computeH_extends[OF s2] projectH_extends[OF s3]
      removeOcclusionsH_extends[OF s4] createShadowLayerH_extends[OF s5]
      applyDistanceWeightedBlurH_extends[OF s6] maskToImageDataH_extends[OF s7]
      compositeH_extends[OF s8]
    by (blast intro: extends_trans)
  ultimately show ?thesis by simp
qed

text \<open>
  C8. A run of \<^verbatim>\<open>generate\<close> that returns leaves every buffer that was
  allocated before the call as it was, in particular the data of the foreground,
  the background and the depth map: each stage allocates its output and writes
  only there (the lemmas above, one per stage).
\<close>

theorem generate_preserves_inputs:
  assumes "generateH m hp images config = Some (res, hp')"
  shows "(\<forall>a < length (u8 hp). bufU8 hp' a = bufU8 hp a) \<and>
         (\<forall>a < length (f32 hp). bufF32 hp' a = bufF32 hp a)"
proof (intro conjI allI impI)
  fix a assume a: "a < length (u8 hp)"
  from generateH_extends[OF assms] have t: "take (length (u8 hp)) (u8 hp') = u8 hp"
    by (simp add: extendsHeap_def)
  then have "length (take (length (u8 hp)) (u8 hp')) = length (u8 hp)" by simp
  then have l: "length (u8 hp) \<le> length (u8 hp')" by simp
  from a have "u8 hp ! a = take (length (u8 hp)) (u8 hp') ! a" by (simp only: t)
  also have "\<dots> = u8 hp' ! a" using a by simp
  finally show "bufU8 hp' a = bufU8 hp a" using a l by (simp add: bufU8_def)
next
  fix a assume a: "a < length (f32 hp)"
  from generateH_extends[OF assms] have t: "take (length (f32 hp)) (f32 hp') = f32 hp"
    by (simp add: extendsHeap_def)
  then have "length (take (length (f32 hp)) (f32 hp')) = length (f32 hp)" by simp
  then have l: "length (f32 hp) \<le> length (f32 hp')" by simp
  from a have "f32 hp ! a = take (length (f32 hp)) (f32 hp') ! a" by (simp only: t)
  also have "\<dots> = f32 hp' ! a" using a by simp
  finally show "bufF32 hp' a = bufF32 hp a" using a l by (simp add: bufF32_def)
qed

lemma generateH_returns:
  assumes "extractH hp (foregroundRef images) 10 = (silhouette, hp1)"
    and "computeH hp1 silhouette
           (detect (bufU8 hp1 silhouette) (refWidth (foregroundRef images)) (refHeight (foregroundRef images)))
           (refWidth (foregroundRef images)) (refHeight (foregroundRef images)) = (distanceMap, hp2)"
    and "projectH hp2 silhouette (refWidth (foregroundRef images)) (refHeight (foregroundRef images))
           (calculate (lightAngle config) (lightElevation config))
           (getShadowLengthMultiplier (lightElevation config) * maxShadowDistance config)
           (depthMapRef images) = Some (projected, hp3)"
  shows "\<exists>res hp'. generateH m hp images config = Some (res, hp')"
  unfolding generateH_def using assms by (simp add: Let_def split: prod.splits)

lemma example_generate_returns:
  "\<exists>res hp'. generateH exampleMath exampleHeap exampleImages exampleConfig = Some (res, hp')"
proof -
  let ?hp1 = "\<lparr>u8 = [[0, 0, 0, 0], [9, 9, 9, 255], [0]], f32 = []\<rparr>"
  let ?hp2 = "\<lparr>u8 = [[0, 0, 0, 0], [9, 9, 9, 255], [0]], f32 = [[Finite 0]]\<rparr>"
  let ?hp3 = "\<lparr>u8 = [[0, 0, 0, 0], [9, 9, 9, 255], [0], [0]], f32 = [[Finite 0]]\<rparr>"
  have e: "extractH exampleHeap (foregroundRef exampleImages) 10 = (2, ?hp1)"
    by (simp add: extractH_def exampleHeap_def exampleImages_def allocU8_def loadNum_def bufU8_def
          readNum_def storeU8_def ngt_def Let_def)
  have c: "computeH ?hp1 2
             (detect (bufU8 ?hp1 2) (refWidth (foregroundRef exampleImages)) (refHeight (foregroundRef exampleImages)))
             (refWidth (foregroundRef exampleImages)) (refHeight (foregroundRef exampleImages))
           = (\<lparr>distRef = 0, distRefWidth = 1, distRefHeight = 1\<rparr>, ?hp2)"
    by (simp add: computeH_def allocF32_def exampleImages_def bufU8_def detect_def readU8_def)
  have p: "projectH ?hp2 2 (refWidth (foregroundRef exampleImages)) (refHeight (foregroundRef exampleImages))
             (calculate (lightAngle exampleConfig) (lightElevation exampleConfig))
             (getShadowLengthMultiplier (lightElevation exampleConfig) * maxShadowDistance exampleConfig)
             (depthMapRef exampleImages) = Some (3, ?hp3)"
    by (simp add: projectH_def allocU8_def projectPixelH_def loadU8_def bufU8_def readU8_def
          exampleImages_def)
  from e c p show ?thesis by (rule generateH_returns)
qed

theorem generate_preserves_inputs_witness:
  "\<exists>res hp'. generateH exampleMath exampleHeap exampleImages exampleConfig = Some (res, hp') \<and>
     (0::nat) < length (u8 exampleHeap) \<and> (1::nat) < length (u8 exampleHeap) \<and>
     bufU8 hp' 0 = [0, 0, 0, 0] \<and> bufU8 hp' 1 = [9, 9, 9, 255]"
proof -
  from example_generate_returns obtain res hp' where
    g: "generateH exampleMath exampleHeap exampleImages exampleConfig = Some (res, hp')"
    by blast
  have l: "(0::nat) < length (u8 exampleHeap)" "(1::nat) < length (u8 exampleHeap)"
    by (simp_all add: exampleHeap_def)
  from generate_preserves_inputs[OF g] l
  have "bufU8 hp' 0 = bufU8 exampleHeap 0" "bufU8 hp' 1 = bufU8 exampleHeap 1"
    by blast+
  then have "bufU8 hp' 0 = [0, 0, 0, 0]" "bufU8 hp' 1 = [9, 9, 9, 255]"
    by (simp_all add: bufU8_def exampleHeap_def)
  with g l show ?thesis by blast
qed

section \<open>The store model against the value model\<close>

text \<open>
  The stages on the store compute the buffers of the functions on values: a
  stage appends to the store the buffer that the function on values returns for
  the contents of its arguments. This is shown for \<^verbatim>\<open>removeOcclusions\<close>,
  \<^verbatim>\<open>compute\<close>, \<^verbatim>\<open>composite\<close> and \<^verbatim>\<open>project\<close>, whose line loop returns on the
  store exactly when it returns on values.
\<close>

lemma fold_sim:
  assumes "R s t" "\<And>e s t. R s t \<Longrightarrow> R (f e s) (g e t)"
  shows "R (fold f es s) (fold g es t)"
  using assms(1)
proof (induction es arbitrary: s t)
  case Nil
  then show ?case by simp
next
  case (Cons e es)
  from Cons.IH[OF assms(2)[OF Cons.prems]] show ?case by simp
qed

lemma allocU8_push: "allocU8 hp n = (length (u8 hp), pushU8 hp (replicate n 0))"
  by (simp add: allocU8_def pushU8_def)

lemma allocF32_push: "allocF32 hp n = (length (f32 hp), pushF32 hp (replicate n (Finite 0)))"
  by (simp add: allocF32_def pushF32_def)

lemma bufU8_push_old: "a < length (u8 hp) \<Longrightarrow> bufU8 (pushU8 hp buf) a = bufU8 hp a"
  by (simp add: bufU8_def pushU8_def nth_append)

lemma bufU8_push_new: "bufU8 (pushU8 hp buf) (length (u8 hp)) = buf"
  by (simp add: bufU8_def pushU8_def)

lemma loadU8_push_old: "a < length (u8 hp) \<Longrightarrow> loadU8 (pushU8 hp buf) a i = readU8 (bufU8 hp a) i"
  by (simp add: loadU8_def bufU8_push_old)

lemma loadNum_push_old: "a < length (u8 hp) \<Longrightarrow> loadNum (pushU8 hp buf) a i = readNum (bufU8 hp a) i"
  by (simp add: loadNum_def bufU8_push_old)

lemma storeU8_push: "storeU8 (pushU8 hp buf) (length (u8 hp)) i v = pushU8 hp (buf[i := v])"
  by (simp add: storeU8_def bufU8_push_new) (simp add: pushU8_def)

lemma storePixelH_push:
  "storePixelH (pushU8 hp buf) (length (u8 hp)) i c = pushU8 hp (storePixel buf i c)"
  by (cases c) (simp add: storePixelH_def storePixel_def storeU8_push)

lemma bufU8_pushF32: "bufU8 (pushF32 hp buf) a = bufU8 hp a"
  by (simp add: bufU8_def pushF32_def)

lemma storeF32_push: "storeF32 (pushF32 hp buf) (length (f32 hp)) i v = pushF32 hp (buf[i := v])"
  by (simp add: storeF32_def bufF32_def pushF32_def)

lemma removeOcclusionsH_refines:
  assumes "s < length (u8 hp)" "m < length (u8 hp)"
  shows "removeOcclusionsH hp s m w h
         = (length (u8 hp), pushU8 hp (removeOcclusions (bufU8 hp s) (bufU8 hp m) w h))"
proof -
  let ?R = "\<lambda>hh buf. hh = pushU8 hp buf"
  have "?R (fold (\<lambda>i hh. if loadU8 hh s i = Some 1 \<and> loadU8 hh m i = Some 0
                           then storeU8 hh (length (u8 hp)) i 1 else hh)
              [0..<length (bufU8 hp s)] (pushU8 hp (replicate (w * h) 0)))
           (fold (\<lambda>i result. if readU8 (bufU8 hp s) i = Some 1 \<and> readU8 (bufU8 hp m) i = Some 0
                           then result[i := 1] else result)
              [0..<length (bufU8 hp s)] (replicate (w * h) 0))"
    by (rule fold_sim) (simp_all add: loadU8_push_old assms storeU8_push)
  then show ?thesis
    by (simp add: removeOcclusionsH_def removeOcclusions_def allocU8_push)
qed

lemma computeH_refines:
  "computeH hp msk cl w h
   = (\<lparr>distRef = length (f32 hp), distRefWidth = w, distRefHeight = h\<rparr>,
      pushF32 hp (distData (compute (bufU8 hp msk) cl w h)))"
proof (cases "points cl = []")
  case True
  then show ?thesis by (simp add: computeH_def compute_def allocF32_push)
next
  case False
  let ?R = "\<lambda>hh buf. hh = pushF32 hp buf"
  have "?R (fold (\<lambda>p hh. case p of (y, x) \<Rightarrow>
                     let idx = y * w + x in
                     if loadU8 hh msk idx = Some 0 then storeF32 hh (length (f32 hp)) idx (Finite 0)
                     else storeF32 hh (length (f32 hp)) idx (minDistance x y (points cl)))
              (List.product [0..<h] [0..<w]) (pushF32 hp (replicate (w * h) (Finite 0))))
           (fold (\<lambda>p ds. case p of (y, x) \<Rightarrow>
                     let idx = y * w + x in
                     if readU8 (bufU8 hp msk) idx = Some 0 then ds[idx := Finite 0]
                     else ds[idx := minDistance x y (points cl)])
              (List.product [0..<h] [0..<w]) (replicate (w * h) (Finite 0)))"
    by (rule fold_sim) (auto simp: loadU8_def bufU8_pushF32 storeF32_push Let_def)
  with False show ?thesis
    by (simp add: computeH_def compute_def allocF32_push)
qed

lemma compositeH_refines:
  assumes "refData bg < length (u8 hp)" "refData sh < length (u8 hp)" "refData fg < length (u8 hp)"
  shows "compositeH hp bg sh fg
         = (\<lparr>refWidth = refWidth bg, refHeight = refHeight bg, refData = length (u8 hp)\<rparr>,
            pushU8 hp (data (composite (imageOf hp bg) (imageOf hp sh) (imageOf hp fg))))"
proof -
  let ?r = "\<lparr>refWidth = refWidth bg, refHeight = refHeight bg, refData = length (u8 hp)\<rparr>"
  let ?R = "\<lambda>hh buf. hh = pushU8 hp buf"
  have "?R (fold (compositePixelH bg sh fg ?r) [0..<refWidth bg * refHeight bg]
              (pushU8 hp (replicate (4 * refWidth bg * refHeight bg) 0)))
           (fold (compositePixel (imageOf hp bg) (imageOf hp sh) (imageOf hp fg))
              [0..<refWidth bg * refHeight bg] (replicate (4 * refWidth bg * refHeight bg) 0))"
    by (rule fold_sim)
       (simp_all add: compositePixelH_def compositePixel_def imageOf_def loadNum_push_old assms
          storePixelH_push Let_def)
  then show ?thesis
    by (simp add: compositeH_def composite_def newImageData_def allocU8_push imageOf_def Let_def)
qed

lemma markPixelH_push:
  "markPixelH (pushU8 hp buf) (length (u8 hp)) w h x y = pushU8 hp (markPixel buf w h x y)"
  by (simp add: markPixelH_def markPixel_def storeU8_push)

lemma drawLoopH_exit:
  "drawLoopH ((w, h, adx, ady, sx, sy, x, y), ((hp, a), err, x, y)) = Some (markPixelH hp a w h x y)"
  by (subst drawLoopH.simps) simp

lemma drawLoopH_step:
  "\<not> (x = endX \<and> y = endY) \<Longrightarrow>
   drawLoopH ((w, h, adx, ady, sx, sy, endX, endY), ((hp, a), err, x, y))
     = drawLoopH ((w, h, adx, ady, sx, sy, endX, endY),
                  lineStep (w, h, adx, ady, sx, sy, endX, endY) ((markPixelH hp a w h x y, a), err, x, y))"
  by (subst drawLoopH.simps) (auto simp: Let_def)

lemma lineStep_push:
  "lineStep c (buf, err, x, y) = (buf, err', x', y') \<Longrightarrow>
   lineStep c ((pushU8 hp buf, a), err, x, y) = ((pushU8 hp buf, a), err', x', y')"
  by (cases c) (auto simp: lineStep_def Let_def)

lemma drawLoop_to_drawLoopH:
  assumes "drawLoop cs = Some r"
  shows "case cs of (c, (buf, err, x, y)) \<Rightarrow>
           drawLoopH (c, ((pushU8 hp buf, length (u8 hp)), err, x, y)) = Some (pushU8 hp r)"
proof (rule drawLoop.raw_induct[where P = "\<lambda>cs r. case cs of (c, (buf, err, x, y)) \<Rightarrow>
           drawLoopH (c, ((pushU8 hp buf, length (u8 hp)), err, x, y)) = Some (pushU8 hp r)", OF _ assms])
  fix f cs r
  assume IH: "\<And>cs' r'. f cs' = Some r' \<Longrightarrow> (case cs' of (c, (buf, err, x, y)) \<Rightarrow>
           drawLoopH (c, ((pushU8 hp buf, length (u8 hp)), err, x, y)) = Some (pushU8 hp r'))"
    and eq: "(case cs of
               ((w, h, adx, ady, sx, sy, endX, endY), buffer, err, x, y) \<Rightarrow>
                 let buffer' = markPixel buffer w h x y
                 in if x = endX \<and> y = endY then Some buffer'
                    else f ((w, h, adx, ady, sx, sy, endX, endY),
                           lineStep (w, h, adx, ady, sx, sy, endX, endY) (buffer', err, x, y))) = Some r"
  obtain w h adx ady sx sy endX endY buffer err x y
    where cs: "cs = ((w, h, adx, ady, sx, sy, endX, endY), (buffer, err, x, y))"
    by (metis prod.collapse)
  let ?c = "(w, h, adx, ady, sx, sy, endX, endY)"
  have "drawLoopH (?c, ((pushU8 hp buffer, length (u8 hp)), err, x, y)) = Some (pushU8 hp r)"
  proof (cases "x = endX \<and> y = endY")
    case True
    with eq cs have "r = markPixel buffer w h x y" by (simp add: Let_def)
    with True show ?thesis
      by (subst drawLoopH.simps) (simp add: markPixelH_push)
  next
    case False
    obtain err' x' y' where st: "lineStep ?c (markPixel buffer w h x y, err, x, y)
                                  = (markPixel buffer w h x y, err', x', y')"
      by (simp add: lineStep_def Let_def)
    from eq cs False st have "f (?c, (markPixel buffer w h x y, err', x', y')) = Some r"
      by (simp add: Let_def)
    from IH[OF this]
    have "drawLoopH (?c, ((pushU8 hp (markPixel buffer w h x y), length (u8 hp)), err', x', y'))
            = Some (pushU8 hp r)"
      by simp
    then show ?thesis
      unfolding drawLoopH_step[OF False] markPixelH_push lineStep_push[OF st] .
  qed
  with cs show "case cs of (c, (buf, err, x, y)) \<Rightarrow>
           drawLoopH (c, ((pushU8 hp buf, length (u8 hp)), err, x, y)) = Some (pushU8 hp r)"
    by simp
qed

lemma drawLoopH_to_drawLoop:
  assumes "drawLoopH cs = Some hp'"
  shows "\<forall>hp buf. loopHeap cs = pushU8 hp buf \<and> loopBuffer cs = length (u8 hp) \<longrightarrow>
           (\<exists>r. drawLoop (fst cs, (buf, loopState cs)) = Some r \<and> hp' = pushU8 hp r)"
proof (rule drawLoopH.raw_induct[where P = "\<lambda>cs hp'.
         \<forall>hp buf. loopHeap cs = pushU8 hp buf \<and> loopBuffer cs = length (u8 hp) \<longrightarrow>
           (\<exists>r. drawLoop (fst cs, (buf, loopState cs)) = Some r \<and> hp' = pushU8 hp r)", OF _ assms])
  fix f cs hp'
  assume IH: "\<And>cs' r'. f cs' = Some r' \<Longrightarrow>
         \<forall>hp buf. loopHeap cs' = pushU8 hp buf \<and> loopBuffer cs' = length (u8 hp) \<longrightarrow>
           (\<exists>r. drawLoop (fst cs', (buf, loopState cs')) = Some r \<and> r' = pushU8 hp r)"
    and eq: "(case cs of
               ((w, h, adx, ady, sx, sy, endX, endY), (hp, buffer), err, x, y) \<Rightarrow>
                 let hp' = markPixelH hp buffer w h x y
                 in if x = endX \<and> y = endY then Some hp'
                    else f ((w, h, adx, ady, sx, sy, endX, endY),
                           lineStep (w, h, adx, ady, sx, sy, endX, endY) ((hp', buffer), err, x, y))) = Some hp'"
  obtain w h adx ady sx sy endX endY hh a err x y
    where cs: "cs = ((w, h, adx, ady, sx, sy, endX, endY), ((hh, a), err, x, y))"
    by (metis prod.collapse)
  let ?c = "(w, h, adx, ady, sx, sy, endX, endY)"
  show "\<forall>hp buf. loopHeap cs = pushU8 hp buf \<and> loopBuffer cs = length (u8 hp) \<longrightarrow>
           (\<exists>r. drawLoop (fst cs, (buf, loopState cs)) = Some r \<and> hp' = pushU8 hp r)"
  proof (intro allI impI)
    fix hp buf assume "loopHeap cs = pushU8 hp buf \<and> loopBuffer cs = length (u8 hp)"
    with cs have hh: "hh = pushU8 hp buf" and a: "a = length (u8 hp)"
      by (simp_all add: loopHeap_def loopBuffer_def)
    have mk: "markPixelH hh a w h x y = pushU8 hp (markPixel buf w h x y)"
      unfolding hh a by (rule markPixelH_push)
    have "\<exists>r. drawLoop (?c, (buf, err, x, y)) = Some r \<and> hp' = pushU8 hp r"
    proof (cases "x = endX \<and> y = endY")
      case True
      with eq cs mk have "hp' = pushU8 hp (markPixel buf w h x y)" by (simp add: Let_def)
      moreover from True have "drawLoop (?c, (buf, err, x, y)) = Some (markPixel buf w h x y)"
        by (subst drawLoop.simps) simp
      ultimately show ?thesis by blast
    next
      case False
      obtain err' x' y' where st: "lineStep ?c (markPixel buf w h x y, err, x, y)
                                  = (markPixel buf w h x y, err', x', y')"
        by (simp add: lineStep_def Let_def)
      from eq cs False mk lineStep_push[OF st, of hp a]
      have "f (?c, ((pushU8 hp (markPixel buf w h x y), a), err', x', y')) = Some hp'"
        by (simp add: Let_def)
      from IH[OF this, rule_format, of hp "markPixel buf w h x y"] a
      obtain r where r: "drawLoop (?c, (markPixel buf w h x y, err', x', y')) = Some r" "hp' = pushU8 hp r"
        by (auto simp: loopHeap_def loopBuffer_def loopState_def)
      from r(1) have "drawLoop (?c, (buf, err, x, y)) = Some r"
        unfolding drawLoop_step[OF False] st .
      with r(2) show ?thesis by blast
    qed
    with cs show "\<exists>r. drawLoop (fst cs, (buf, loopState cs)) = Some r \<and> hp' = pushU8 hp r"
      by (simp add: loopState_def)
  qed
qed

lemma drawLoopH_refines:
  "drawLoopH (c, ((pushU8 hp buf, length (u8 hp)), err, x, y))
   = map_option (pushU8 hp) (drawLoop (c, (buf, err, x, y)))"
proof (cases "drawLoop (c, (buf, err, x, y))")
  case (Some r)
  from drawLoop_to_drawLoopH[OF this, of hp] Some show ?thesis by simp
next
  case None
  show ?thesis
  proof (cases "drawLoopH (c, ((pushU8 hp buf, length (u8 hp)), err, x, y))")
    case None
    with \<open>drawLoop (c, (buf, err, x, y)) = None\<close> show ?thesis by simp
  next
    case (Some hp')
    from drawLoopH_to_drawLoop[OF this, rule_format, of hp buf]
    have "\<exists>r. drawLoop (c, (buf, err, x, y)) = Some r"
      by (auto simp: loopHeap_def loopBuffer_def loopState_def)
    with None show ?thesis by simp
  qed
qed

lemma drawLineH_refines:
  "drawLineH (pushU8 hp buf) (length (u8 hp)) w h x0 y0 x1 y1
   = map_option (pushU8 hp) (drawLine buf w h x0 y0 x1 y1)"
  by (simp add: drawLineH_def drawLine_def Let_def drawLoopH_refines)

lemma foldOpt_sim:
  assumes "\<And>e t. f e (lift t) = map_option lift (g e t)"
  shows "foldOpt f es (lift t) = map_option lift (foldOpt g es t)"
proof (induction es arbitrary: t)
  case Nil
  show ?case by simp
next
  case (Cons e es)
  show ?case by (cases "g e t") (simp_all add: assms Cons.IH)
qed

lemma warpFactorH_push:
  assumes "\<forall>d. dm = Some d \<longrightarrow> refData d < length (u8 hp)"
  shows "warpFactorH (pushU8 hp buf) dm idx = warpFactor (map_option (imageOf hp) dm) idx"
  using assms
  by (cases dm) (simp_all add: warpFactorH_def warpFactor_def loadNum_push_old imageOf_def Let_def)

lemma projectH_refines:
  assumes "msk < length (u8 hp)" "\<forall>d. dm = Some d \<longrightarrow> refData d < length (u8 hp)"
  shows "projectH hp msk w h lv maxD dm
         = map_option (\<lambda>sm. (length (u8 hp), pushU8 hp sm))
             (project (bufU8 hp msk) w h lv maxD (map_option (imageOf hp) dm))"
proof -
  have "foldOpt (projectPixelH msk w h lv maxD dm (length (u8 hp))) (List.product [0..<h] [0..<w])
          (pushU8 hp (replicate (w * h) 0))
        = map_option (pushU8 hp)
            (foldOpt (projectPixel (bufU8 hp msk) w h lv maxD (map_option (imageOf hp) dm))
               (List.product [0..<h] [0..<w]) (replicate (w * h) 0))"
  proof (rule foldOpt_sim)
    fix e :: "nat \<times> nat" and t
    obtain y x where e: "e = (y, x)" by (cases e)
    show "projectPixelH msk w h lv maxD dm (length (u8 hp)) e (pushU8 hp t)
          = map_option (pushU8 hp) (projectPixel (bufU8 hp msk) w h lv maxD (map_option (imageOf hp) dm) e t)"
      unfolding e projectPixelH_def projectPixel_def
      by (simp add: loadU8_push_old assms warpFactorH_push[OF assms(2)] drawLineH_refines Let_def
               split: option.splits)
  qed
  then show ?thesis
    by (simp add: projectH_def project_def allocU8_push option.map_comp comp_def)
qed

section \<open>ShadowGenerator.generate: a run that never returns\<close>

text \<open>
  The loop of \<^verbatim>\<open>drawLine\<close> is also left running by \<^verbatim>\<open>generate\<close>. For the light
  angle 30, the elevation 0 and the maximal shadow distance 1/10 the end point of
  the pixel \<open>(0, 0)\<close> is \<open>(-sqrt 3 / 2, -1/2)\<close>, which rounds to \<open>(-1, 0)\<close>; the
  loop steps from \<open>(0, 0)\<close> to \<open>(-1, -1)\<close> and is above its end row for good.
\<close>

lemma low_sun_light:
  "dx (calculate 30 0) * (getShadowLengthMultiplier 0 * (1 / 10)) = sqrt 3 / 2"
  "dy (calculate 30 0) * (getShadowLengthMultiplier 0 * (1 / 10)) = 1 / 2"
proof -
  have d: "degreesToRadians 30 = pi / 6" by (simp add: degreesToRadians_def)
  have z: "degreesToRadians 0 = 0" by (simp add: degreesToRadians_def)
  have m: "getShadowLengthMultiplier 0 * (1 / 10) = 1"
    by (simp add: getShadowLengthMultiplier_def z Let_def)
  show "dx (calculate 30 0) * (getShadowLengthMultiplier 0 * (1 / 10)) = sqrt 3 / 2"
    unfolding m by (simp add: calculate_def d z cos_30 Let_def)
  show "dy (calculate 30 0) * (getShadowLengthMultiplier 0 * (1 / 10)) = 1 / 2"
    unfolding m by (simp add: calculate_def d z sin_30 Let_def)
qed

lemma sqrt3_bounds: "1 < sqrt 3" "sqrt 3 < 2"
proof -
  have "sqrt 1 < sqrt 3" by (simp only: real_sqrt_less_iff)
  then show "1 < sqrt 3" by simp
  have "sqrt 3 < sqrt 4" by (simp only: real_sqrt_less_iff)
  moreover have "sqrt 4 = 2" using real_sqrt_abs[of 2] by simp
  ultimately show "sqrt 3 < 2" by simp
qed

lemma drawLine_low_sun_diverges:
  "drawLine buffer 1 1 0 0 (- (sqrt 3 / 2)) (- (1 / 2)) = None"
proof -
  note b = sqrt3_bounds
  have rx: "jsRound (- (sqrt 3 / 2)) = - 1"
    unfolding jsRound_def using b by (intro floor_unique) simp_all
  have ry: "jsRound (- (1 / 2)) = 0" "jsRound 0 = 0"
    by (simp_all add: jsRound_def)
  have "drawLine buffer 1 1 0 0 (- (sqrt 3 / 2)) (- (1 / 2))
        = drawLoop ((1, 1, sqrt 3 / 2, 1 / 2, - 1, - 1, - 1, 0), (buffer, sqrt 3 / 2 - 1 / 2, 0, 0))"
    using b by (simp add: drawLine_def rx ry Let_def)
  also have "\<dots> = drawLoop ((1, 1, sqrt 3 / 2, 1 / 2, - 1, - 1, - 1, 0),
                 lineStep (1, 1, sqrt 3 / 2, 1 / 2, - 1, - 1, - 1, 0) (markPixel buffer 1 1 0 0, sqrt 3 / 2 - 1 / 2, 0, 0))"
    by (rule drawLoop_step) simp
  also have "lineStep (1, 1, sqrt 3 / 2, 1 / 2, - 1, - 1, - 1, 0) (markPixel buffer 1 1 0 0, sqrt 3 / 2 - 1 / 2, 0, 0)
        = (markPixel buffer 1 1 0 0, sqrt 3 - 1, - 1, - 1)"
  proof -
    have e2: "2 * (sqrt 3 / 2 - 1 / 2) = sqrt 3 - 1" by simp
    have c1: "- (1 / 2) < 2 * (sqrt 3 / 2 - 1 / 2)" unfolding e2 using b by argo
    have c2: "2 * (sqrt 3 / 2 - 1 / 2) < sqrt 3 / 2" unfolding e2 using b by argo
    show ?thesis
      unfolding lineStep_def prod.case Let_def using c1 c2 by simp
  qed
  also have "drawLoop ((1, 1, sqrt 3 / 2, 1 / 2, - 1, - 1, - 1, 0), (markPixel buffer 1 1 0 0, sqrt 3 - 1, - 1, - 1)) = None"
    by (rule drawLoop_past_end_up) simp
  finally show ?thesis .
qed

lemma project_low_sun_diverges:
  assumes "dx lv * len = sqrt 3 / 2" "dy lv * len = 1 / 2"
  shows "project [1] 1 1 lv len None = None"
  using drawLine_low_sun_diverges
  by (simp add: project_def projectPixel_def warpFactor_def readU8_def assms)

lemma generate_low_sun_diverges:
  "generateH m opaqueHeap exampleImages lowSunConfig = None"
proof -
  let ?hp1 = "\<lparr>u8 = [[0, 0, 0, 255], [9, 9, 9, 255], [1]], f32 = []\<rparr>"
  have e: "extractH opaqueHeap (foregroundRef exampleImages) 10 = (2, ?hp1)"
    by (simp add: extractH_def opaqueHeap_def exampleImages_def allocU8_def loadNum_def bufU8_def
          readNum_def storeU8_def ngt_def Let_def)
  obtain dm hp2 where c: "computeH ?hp1 2
             (detect (bufU8 ?hp1 2) (refWidth (foregroundRef exampleImages)) (refHeight (foregroundRef exampleImages)))
             (refWidth (foregroundRef exampleImages)) (refHeight (foregroundRef exampleImages)) = (dm, hp2)"
    and u: "bufU8 hp2 2 = [1]" "2 < length (u8 hp2)"
    unfolding computeH_refines by (simp add: bufU8_pushF32 bufU8_def pushF32_def)
  have "projectH hp2 2 (refWidth (foregroundRef exampleImages)) (refHeight (foregroundRef exampleImages))
             (calculate (lightAngle lowSunConfig) (lightElevation lowSunConfig))
             (getShadowLengthMultiplier (lightElevation lowSunConfig) * maxShadowDistance lowSunConfig)
             (depthMapRef exampleImages) = None"
    using u project_low_sun_diverges[OF low_sun_light]
    by (simp add: projectH_refines exampleImages_def lowSunConfig_def)
  with e c show ?thesis
    by (simp add: generateH_def Let_def)
qed


end
